theory Spec2Isabelle
  imports Main "HOL-Library.Monad_Syntax"
begin

section \<open>Values, property dictionaries and virtual nodes\<close>

text \<open>
  Python values that occur as property values, keys and hook state.  A callable is
  represented by its identity; \<open>==\<close> on two callables is identity of the two.
\<close>

datatype pyval = PNone | PInt int | PStr string | PFun nat | PList "pyval list"

text \<open>
  A \<open>dict\<close> with string keys, in insertion order (the order \<open>items()\<close> yields).
\<close>

type_synonym pydict = "(string \<times> pyval) list"

definition has_key :: "pydict \<Rightarrow> string \<Rightarrow> bool" where
  "has_key d k = (map_of d k \<noteq> None)"

text \<open>\<open>d.get(k)\<close>: the stored value, \<open>None\<close> for a missing key.\<close>

definition dict_get :: "pydict \<Rightarrow> string \<Rightarrow> pyval" where
  "dict_get d k = (case map_of d k of None \<Rightarrow> PNone | Some v \<Rightarrow> v)"

text \<open>\<open>d.pop(k)\<close> for a key that is present: the entry leaves the dictionary.\<close>

definition dict_pop :: "pydict \<Rightarrow> string \<Rightarrow> pydict" where
  "dict_pop d k = filter (\<lambda>kv. fst kv \<noteq> k) d"

text \<open>
  The \<open>type\<close> of a virtual node is a tag string (host component) or a callable
  (function component), the latter known by its identity.
\<close>

datatype ntype = Host string | Component nat

text \<open>
  \<open>class VNode\<close>.  The type parameter is the representation of \<open>props\<close>: the
  dictionary itself where only its content matters, a reference into a store of
  dictionaries where the identity of the object matters.
\<close>

datatype 'p vnode =
  VNode (vtype: ntype) (vprops: 'p) (vchildren: "'p vnode list") (vkey: pyval)

datatype EffectTag = UPDATE | PLACEMENT | DELETION

section \<open>create_element\<close>

text \<open>
  \<open>create_element(type, props=None, *children)\<close> over a store of dictionary objects:
  \<open>props\<close> is \<open>None\<close> or the address of a dictionary in the store.  The result is the
  virtual node, whose \<open>props\<close> is an address, and the store after the call.  An address
  outside the store is not a Python object; the model answers \<open>None\<close> there.
  \<open>props or {}\<close> yields the caller's object when it is non-empty at that moment and a
  new empty dictionary otherwise.
\<close>

definition create_element ::
  "pydict list \<Rightarrow> ntype \<Rightarrow> nat option \<Rightarrow> nat vnode list \<Rightarrow> (nat vnode \<times> pydict list) option" where
  "create_element store type props children =
     (case props of
        None \<Rightarrow> Some (VNode type (length store) children PNone, store @ [[]])
      | Some p \<Rightarrow>
          if length store \<le> p then None
          else
            let d = store ! p;
                popping = (d \<noteq> [] \<and> has_key d ''key'');
                key = (if popping then dict_get d ''key'' else PNone);
                store1 = (if popping then store[p := dict_pop d ''key''] else store)
            in if store1 ! p \<noteq> []
               then Some (VNode type p children key, store1)
               else Some (VNode type (length store1) children key, store1 @ [[]]))"

section \<open>The renderer port and update_dom\<close>

text \<open>
  A host object: the container the caller hands to \<open>render\<close>, or an object made by
  the renderer's \<open>create_element\<close>.  Host objects are always truthy.
\<close>

datatype handle = Container nat | Created nat

text \<open>
  The calls made on host objects and on the renderer module, in the order they are
  made.  \<open>Add p c\<close> is \<open>p.add(c)\<close>, \<open>Remove p c\<close> is \<open>p.remove(c)\<close>.
\<close>

datatype host_op =
    CreateElement handle string
  | SetAttribute handle string pyval
  | ClearAttribute handle string pyval
  | AddEventHandler handle string pyval
  | RemoveEventHandler handle string pyval
  | Add handle handle
  | Remove handle handle

definition is_event :: "string \<Rightarrow> bool" where
  "is_event key = (take 2 key = ''on'')"

definition is_property :: "string \<Rightarrow> bool" where
  "is_property key = (\<not> is_event key)"

definition is_new :: "pyval \<Rightarrow> pydict \<Rightarrow> string \<Rightarrow> bool" where
  "is_new val other key = (val \<noteq> dict_get other key)"

text \<open>\<open>str.lower\<close> on ASCII text.\<close>

definition lower_char :: "char \<Rightarrow> char" where
  "lower_char c =
     (let n = (of_char c :: nat) in if 65 \<le> n \<and> n \<le> 90 then char_of (n + 32) else c)"

definition event_type :: "string \<Rightarrow> string" where
  "event_type name = drop 2 (map lower_char name)"

text \<open>The four loops of \<open>update_dom\<close>, each with the \<open>continue\<close> tests of the source.\<close>

definition remove_old_listeners :: "handle \<Rightarrow> pydict \<Rightarrow> pydict \<Rightarrow> host_op list" where
  "remove_old_listeners node prev_props next_props =
     concat (map (\<lambda>(name, val).
        if \<not> is_event name then []
        else if \<not> has_key next_props name \<or> \<not> is_new val next_props name then []
        else [RemoveEventHandler node (event_type name) val]) prev_props)"

definition remove_old_properties :: "handle \<Rightarrow> pydict \<Rightarrow> pydict \<Rightarrow> host_op list" where
  "remove_old_properties node prev_props next_props =
     concat (map (\<lambda>(key, val).
        if \<not> is_property key then []
        else if has_key next_props key then []
        else [ClearAttribute node key val]) prev_props)"

definition set_new_properties :: "handle \<Rightarrow> pydict \<Rightarrow> pydict \<Rightarrow> host_op list" where
  "set_new_properties node prev_props next_props =
     concat (map (\<lambda>(key, val).
        if \<not> is_property key then []
        else if \<not> is_new val prev_props key then []
        else [SetAttribute node key val]) next_props)"

definition add_new_listeners :: "handle \<Rightarrow> pydict \<Rightarrow> pydict \<Rightarrow> host_op list" where
  "add_new_listeners node prev_props next_props =
     concat (map (\<lambda>(name, val).
        if \<not> is_event name then []
        else if \<not> is_new (dict_get prev_props name) next_props name then []
        else [AddEventHandler node (event_type name) val]) next_props)"

definition update_dom :: "handle \<Rightarrow> pydict \<Rightarrow> pydict \<Rightarrow> host_op list" where
  "update_dom node prev_props next_props =
     remove_old_listeners node prev_props next_props
     @ remove_old_properties node prev_props next_props
     @ set_new_properties node prev_props next_props
     @ add_new_listeners node prev_props next_props"

section \<open>Fibers and the engine state\<close>

type_synonym fid = nat

text \<open>
  One entry of a fiber's \<open>hooks\<close> list.  \<open>watcher\<close> is the subscription that
  \<open>watch\<close> returned.
\<close>

record hook =
  state :: pyval
  queue :: "(pyval \<Rightarrow> pyval) list"
  watcher :: nat

text \<open>
  A fiber is a Python \<open>dict\<close>; a key that is absent and a key bound to \<open>None\<close> are
  both \<open>None\<close> here (\<open>get\<close> does not tell them apart, and subscripting either one
  ends in an exception).  Fibers live in a store and are known by their address, so
  that \<open>parent\<close>, \<open>child\<close>, \<open>sibling\<close> and \<open>alternate\<close> are references.
\<close>

record fiber =
  ftype :: "ntype option"
  props :: pydict
  children :: "pydict vnode list"
  fdom :: "handle option"
  parent :: "fid option"
  alternate :: "fid option"
  effect_tag :: "EffectTag option"
  child :: "fid option"
  sibling :: "fid option"
  hooks :: "hook list option"

definition fiber_at :: "fiber list \<Rightarrow> fid \<Rightarrow> fiber option" where
  "fiber_at h a = (if a < length h then Some (h ! a) else None)"

text \<open>
  The \<open>QTimer\<close> of \<open>request_idle_work\<close>: the deadline its connected callback will
  pass to \<open>work_loop\<close>, and whether it has been started and not yet fired.
\<close>

record qtimer =
  slot :: "int option"
  running :: bool

datatype subscription = Active | Cancelled

text \<open>
  The attributes of \<open>PyGui\<close>, followed by what the engine acts on: the store of
  fibers, the calls made on the renderer so far, the number of host objects the
  renderer has created, the subscriptions registered with \<open>watch\<close>, the number of
  readings taken from the clock, and the render callbacks that were called.
\<close>

record pygui =
  next_unit_of_work :: "fid option"
  current_root :: "fid option"
  wip_root :: "fid option"
  deletions :: "fid list option"
  wip_fiber :: "fid option"
  hook_index :: "nat option"
  qt_timer :: "qtimer option"
  render_callback :: "nat option"
  fibers :: "fiber list"
  host_ops :: "host_op list"
  created :: nat
  subscriptions :: "subscription list"
  ticks :: nat
  called :: "nat list"

definition init_pygui :: pygui where
  "init_pygui =
     \<lparr>next_unit_of_work = None, current_root = None, wip_root = None, deletions = None,
      wip_fiber = None, hook_index = None, qt_timer = None, render_callback = None,
      fibers = [], host_ops = [], created = 0, subscriptions = [], ticks = 0, called = []\<rparr>"

text \<open>
  A function component is a Python function of the props that may call
  \<open>use_state\<close> any number of times and returns a virtual node.
\<close>

datatype comp = Return "pydict vnode" | UseState pyval "pyval \<Rightarrow> comp"

text \<open>
  What the engine calls and does not define: the function components (by identity),
  the readings of \<open>time.perf_counter_ns\<close> in the order they are taken, and
  \<open>observ.reactive\<close>.
\<close>

record world =
  components :: "nat \<Rightarrow> pydict \<Rightarrow> comp"
  clock :: "nat \<Rightarrow> int"
  reactive :: "pyval \<Rightarrow> pyval"

section \<open>Scheduling\<close>

text \<open>
  \<open>request_idle_work\<close>.  \<open>not deadline\<close> holds for \<open>None\<close> and for \<open>0\<close>.
\<close>

definition request_idle_work :: "world \<Rightarrow> int option \<Rightarrow> pygui \<Rightarrow> pygui" where
  "request_idle_work w deadline s =
     (if deadline = None \<or> deadline = Some 0
      then s\<lparr>qt_timer := Some \<lparr>slot = Some (clock w (ticks s) + 1000000 * 16), running = True\<rparr>,
             ticks := Suc (ticks s)\<rparr>
      else s\<lparr>qt_timer := Some \<lparr>slot = deadline, running = True\<rparr>\<rparr>)"

definition render :: "world \<Rightarrow> pydict vnode \<Rightarrow> handle \<Rightarrow> nat option \<Rightarrow> pygui \<Rightarrow> pygui" where
  "render w element container callback s =
     (let root = \<lparr>ftype = None, props = [], children = [element], fdom = Some container,
                  parent = None, alternate = current_root s, effect_tag = None,
                  child = None, sibling = None, hooks = None\<rparr>;
          r = length (fibers s)
      in request_idle_work w None
           (s\<lparr>fibers := fibers s @ [root], wip_root := Some r, deletions := Some [],
              next_unit_of_work := Some r, render_callback := callback\<rparr>))"

text \<open>The closure \<open>state_updated\<close> that \<open>use_state\<close> hands to \<open>watch\<close>.\<close>

definition state_updated :: "world \<Rightarrow> pygui \<Rightarrow> pygui option" where
  "state_updated w s =
     do {
       c \<leftarrow> current_root s;
       cf \<leftarrow> fiber_at (fibers s) c;
       let root = \<lparr>ftype = None, props = props cf, children = children cf, fdom = fdom cf,
                   parent = None, alternate = Some c, effect_tag = None,
                   child = None, sibling = None, hooks = None\<rparr>;
       let r = length (fibers s);
       Some (request_idle_work w None
              (s\<lparr>fibers := fibers s @ [root], wip_root := Some r, next_unit_of_work := Some r,
                 deletions := Some []\<rparr>))
     }"

section \<open>The hook store\<close>

text \<open>
  The hook of the alternate fiber at the cursor, as \<open>use_state\<close> looks it up:
  \<open>alternate and alternate.get("hooks") and alternate["hooks"][hook_index]\<close>.  The
  outer \<open>None\<close> is the \<open>IndexError\<close> of a cursor beyond a non-empty hook list (or a
  dangling reference); \<open>Some None\<close> is a falsy result.
\<close>

definition old_hook_of :: "fiber list \<Rightarrow> fiber \<Rightarrow> nat \<Rightarrow> hook option option" where
  "old_hook_of h f i =
     (case alternate f of
        None \<Rightarrow> Some None
      | Some b \<Rightarrow>
          (case fiber_at h b of
             None \<Rightarrow> None
           | Some af \<Rightarrow>
               (case hooks af of
                  None \<Rightarrow> Some None
                | Some hs \<Rightarrow>
                    if length hs = 0 then Some None
                    else if i < length hs then Some (Some (hs ! i))
                    else None)))"

text \<open>
  \<open>use_state\<close>: the value returned and the state afterwards.  \<open>watch\<close> registers a
  new subscription, which the hook keeps.  \<open>None\<close> is an exception.
\<close>

definition use_state :: "world \<Rightarrow> pyval \<Rightarrow> pygui \<Rightarrow> (pyval \<times> pygui) option" where
  "use_state w initial0 s =
     do {
       let initial = reactive w initial0;
       a \<leftarrow> wip_fiber s;
       f \<leftarrow> fiber_at (fibers s) a;
       i \<leftarrow> hook_index s;
       old_hook \<leftarrow> old_hook_of (fibers s) f i;
       let start = (case old_hook of Some oh \<Rightarrow> state oh | None \<Rightarrow> initial);
       let actions = (case old_hook of Some oh \<Rightarrow> queue oh | None \<Rightarrow> []);
       let final = fold (\<lambda>action v. action v) actions start;
       let hk = \<lparr>state = final, queue = [], watcher = length (subscriptions s)\<rparr>;
       hs \<leftarrow> hooks f;
       Some (final,
             s\<lparr>subscriptions := subscriptions s @ [Active],
               fibers := (fibers s)[a := f\<lparr>hooks := Some (hs @ [hk])\<rparr>],
               hook_index := Some (i + 1)\<rparr>)
     }"

text \<open>Calling a function component: its calls of \<open>use_state\<close>, in order.\<close>

primrec run_component :: "world \<Rightarrow> comp \<Rightarrow> pygui \<Rightarrow> (pydict vnode \<times> pygui) option" where
  "run_component w (Return v) s = Some (v, s)"
| "run_component w (UseState initial k) s =
     (case use_state w initial s of
        None \<Rightarrow> None
      | Some (v, s') \<Rightarrow> run_component w (k v) s')"

section \<open>The reconciler\<close>

text \<open>
  \<open>same_type = old_fiber and element and element.type == old_fiber["type"]\<close>;
  \<open>None\<close> is the \<open>KeyError\<close> of an old fiber without \<open>type\<close>.
\<close>

definition same_type_of :: "fiber option \<Rightarrow> pydict vnode option \<Rightarrow> bool option" where
  "same_type_of old element =
     (case old of
        None \<Rightarrow> Some False
      | Some ofb \<Rightarrow>
          (case element of
             None \<Rightarrow> Some False
           | Some e \<Rightarrow>
               (case ftype ofb of None \<Rightarrow> None | Some t \<Rightarrow> Some (vtype e = t))))"

definition update_fiber :: "fid \<Rightarrow> fid \<Rightarrow> fiber \<Rightarrow> pydict vnode \<Rightarrow> fiber" where
  "update_fiber wip ofa ofb e =
     \<lparr>ftype = ftype ofb, props = vprops e, children = vchildren e, fdom = fdom ofb,
      parent = Some wip, alternate = Some ofa, effect_tag = Some UPDATE,
      child = None, sibling = None, hooks = None\<rparr>"

definition placement_fiber :: "fid \<Rightarrow> pydict vnode \<Rightarrow> fiber" where
  "placement_fiber wip e =
     \<lparr>ftype = Some (vtype e), props = vprops e, children = vchildren e, fdom = None,
      parent = Some wip, alternate = None, effect_tag = Some PLACEMENT,
      child = None, sibling = None, hooks = None\<rparr>"

text \<open>
  One pass through the body of the \<open>while\<close> loop of \<open>reconcile_children\<close>: the next
  old fiber, the new fiber (\<open>None\<close> when there is no element) and the state.  A new
  fiber takes the next free address of the store.
\<close>

definition reconcile_step ::
  "fid \<Rightarrow> pydict vnode list \<Rightarrow> nat \<Rightarrow> fid option \<Rightarrow> fid option \<Rightarrow> pygui
     \<Rightarrow> (fid option \<times> fid option \<times> pygui) option" where
  "reconcile_step wip elements index old_fiber prev_sibling s =
     do {
       let element = (if index < length elements then Some (elements ! index) else None);
       old \<leftarrow> (case old_fiber of
                 None \<Rightarrow> Some None
               | Some ofa \<Rightarrow> map_option Some (fiber_at (fibers s) ofa));
       same_type \<leftarrow> same_type_of old element;
       let new_rec =
             (case element of
                None \<Rightarrow> None
              | Some e \<Rightarrow>
                  (case (same_type, old_fiber, old) of
                     (True, Some ofa, Some ofb) \<Rightarrow> Some (update_fiber wip ofa ofb e)
                   | _ \<Rightarrow> Some (placement_fiber wip e)));
       let new_fiber = (case new_rec of None \<Rightarrow> None | Some _ \<Rightarrow> Some (length (fibers s)));
       let s1 = (case new_rec of None \<Rightarrow> s | Some nf \<Rightarrow> s\<lparr>fibers := fibers s @ [nf]\<rparr>);
       s2 \<leftarrow> (case (old_fiber, old) of
                (Some ofa, Some ofb) \<Rightarrow>
                  if same_type then Some s1
                  else (case deletions s1 of
                          None \<Rightarrow> None
                        | Some ds \<Rightarrow>
                            Some (s1\<lparr>fibers := (fibers s1)[ofa := (fibers s1 ! ofa)\<lparr>effect_tag := Some DELETION\<rparr>],
                                     deletions := Some (ds @ [ofa])\<rparr>))
              | _ \<Rightarrow> Some s1);
       let old_fiber' = (case old of None \<Rightarrow> None | Some ofb \<Rightarrow> sibling ofb);
       s3 \<leftarrow> (if index = 0
               then (if wip < length (fibers s2)
                     then Some (s2\<lparr>fibers := (fibers s2)[wip := (fibers s2 ! wip)\<lparr>child := new_fiber\<rparr>]\<rparr>)
                     else None)
               else if element \<noteq> None
               then (case prev_sibling of
                       None \<Rightarrow> None
                     | Some ps \<Rightarrow>
                         if ps < length (fibers s2)
                         then Some (s2\<lparr>fibers := (fibers s2)[ps := (fibers s2 ! ps)\<lparr>sibling := new_fiber\<rparr>]\<rparr>)
                         else None)
               else Some s2);
       Some (old_fiber', new_fiber, s3)
     }"

text \<open>
  The \<open>while\<close> loop.  A chain of old siblings that runs in a circle keeps the loop
  going for ever; the result is \<open>None\<close> then, as it is for an exception.
\<close>

partial_function (option) reconcile_loop ::
  "fid \<Rightarrow> pydict vnode list \<Rightarrow> nat \<Rightarrow> fid option \<Rightarrow> fid option \<Rightarrow> pygui \<Rightarrow> pygui option" where
  "reconcile_loop wip elements index old_fiber prev_sibling s =
     (if index < length elements \<or> old_fiber \<noteq> None
      then (case reconcile_step wip elements index old_fiber prev_sibling s of
              None \<Rightarrow> None
            | Some (old_fiber', new_fiber, s') \<Rightarrow>
                reconcile_loop wip elements (index + 1) old_fiber' new_fiber s')
      else Some s)"

declare reconcile_loop.simps [code]

definition reconcile_children :: "fid \<Rightarrow> pydict vnode list \<Rightarrow> pygui \<Rightarrow> pygui option" where
  "reconcile_children wip elements s =
     do {
       f \<leftarrow> fiber_at (fibers s) wip;
       old_fiber \<leftarrow> (case alternate f of
                       None \<Rightarrow> Some None
                     | Some b \<Rightarrow> map_option child (fiber_at (fibers s) b));
       reconcile_loop wip elements 0 old_fiber None s
     }"

section \<open>Units of work\<close>

text \<open>
  \<open>create_dom\<close>: the renderer makes a new host object and \<open>update_dom\<close> sets it up
  from the fiber's props.  Only a fiber whose \<open>type\<close> is a tag string gets here with
  a \<open>type\<close>; a fiber without \<open>type\<close> raises \<open>KeyError\<close>.
\<close>

definition create_dom :: "fiber \<Rightarrow> pygui \<Rightarrow> (handle \<times> pygui) option" where
  "create_dom f s =
     (case ftype f of
        Some (Host tag) \<Rightarrow>
          let node = Created (created s)
          in Some (node,
                   s\<lparr>created := Suc (created s),
                     host_ops := host_ops s @ [CreateElement node tag] @ update_dom node [] (props f)\<rparr>)
      | _ \<Rightarrow> None)"

definition update_host_component :: "fid \<Rightarrow> pygui \<Rightarrow> pygui option" where
  "update_host_component a s =
     do {
       f \<leftarrow> fiber_at (fibers s) a;
       s1 \<leftarrow> (case fdom f of
                Some _ \<Rightarrow> Some s
              | None \<Rightarrow>
                  (case create_dom f s of
                     None \<Rightarrow> None
                   | Some (node, s') \<Rightarrow>
                       Some (s'\<lparr>fibers := (fibers s')[a := (fibers s' ! a)\<lparr>fdom := Some node\<rparr>]\<rparr>)));
       reconcile_children a (children f) s1
     }"

definition update_function_component :: "world \<Rightarrow> fid \<Rightarrow> pygui \<Rightarrow> pygui option" where
  "update_function_component w a s =
     do {
       f \<leftarrow> fiber_at (fibers s) a;
       let s1 = s\<lparr>wip_fiber := Some a, hook_index := Some 0,
                   fibers := (fibers s)[a := f\<lparr>hooks := Some []\<rparr>]\<rparr>;
       (v, s2) \<leftarrow> (case ftype f of
                     Some (Component c) \<Rightarrow> run_component w (components w c (props f)) s1
                   | _ \<Rightarrow> None);
       reconcile_children a [v] s2
     }"

text \<open>
  The \<open>while\<close> loop at the end of \<open>perform_unit_of_work\<close>, entered with
  \<open>next_fiber\<close>: the first sibling found on the way up, \<open>Some None\<close> when the walk
  ends without one.
\<close>

partial_function (option) walk_up :: "fiber list \<Rightarrow> fid option \<Rightarrow> fid option option" where
  "walk_up h next_fiber =
     (case next_fiber of
        None \<Rightarrow> Some None
      | Some a \<Rightarrow>
          (case fiber_at h a of
             None \<Rightarrow> None
           | Some f \<Rightarrow>
               (case sibling f of
                  Some sb \<Rightarrow> Some (Some sb)
                | None \<Rightarrow> walk_up h (parent f))))"

declare walk_up.simps [code]

text \<open>The value \<open>perform_unit_of_work\<close> returns, read from the store after the update.\<close>

definition next_unit :: "fiber list \<Rightarrow> fid \<Rightarrow> fid option option" where
  "next_unit h a =
     (case fiber_at h a of
        None \<Rightarrow> None
      | Some f \<Rightarrow>
          (case child f of
             Some c \<Rightarrow> Some (Some c)
           | None \<Rightarrow> walk_up h (Some a)))"

definition perform_unit_of_work :: "world \<Rightarrow> fid \<Rightarrow> pygui \<Rightarrow> (fid option \<times> pygui) option" where
  "perform_unit_of_work w a s =
     do {
       f \<leftarrow> fiber_at (fibers s) a;
       s1 \<leftarrow> (case ftype f of
                Some (Component c) \<Rightarrow> update_function_component w a s
              | _ \<Rightarrow> update_host_component a s);
       n \<leftarrow> next_unit (fibers s1) a;
       Some (n, s1)
     }"

section \<open>The committer\<close>

text \<open>The \<open>while\<close> loop of \<open>commit_work\<close>, entered with \<open>fiber.get("parent")\<close>.\<close>

partial_function (option) find_dom_parent :: "fiber list \<Rightarrow> fid option \<Rightarrow> handle option" where
  "find_dom_parent h dom_parent_fiber =
     (case dom_parent_fiber of
        None \<Rightarrow> None
      | Some a \<Rightarrow>
          (case fiber_at h a of
             None \<Rightarrow> None
           | Some f \<Rightarrow>
               (case fdom f of
                  Some d \<Rightarrow> Some d
                | None \<Rightarrow> find_dom_parent h (parent f))))"

declare find_dom_parent.simps [code]

partial_function (option) commit_deletion :: "fid option \<Rightarrow> handle \<Rightarrow> pygui \<Rightarrow> pygui option" where
  "commit_deletion fiber dom_parent s =
     (case fiber of
        None \<Rightarrow> None
      | Some a \<Rightarrow>
          (case fiber_at (fibers s) a of
             None \<Rightarrow> None
           | Some f \<Rightarrow>
               (case fdom f of
                  Some d \<Rightarrow> Some (s\<lparr>host_ops := host_ops s @ [Remove dom_parent d]\<rparr>)
                | None \<Rightarrow> commit_deletion (child f) dom_parent s)))"

declare commit_deletion.simps [code]

text \<open>The \<open>if\<close>/\<open>elif\<close> chain of \<open>commit_work\<close> on one fiber.\<close>

definition commit_effect :: "fid \<Rightarrow> fiber \<Rightarrow> handle \<Rightarrow> pygui \<Rightarrow> pygui option" where
  "commit_effect a f dom_parent s =
     (if effect_tag f = Some PLACEMENT \<and> fdom f \<noteq> None
      then (case fdom f of
              None \<Rightarrow> None
            | Some d \<Rightarrow> Some (s\<lparr>host_ops := host_ops s @ [Add dom_parent d]\<rparr>))
      else if effect_tag f = Some UPDATE \<and> fdom f \<noteq> None
      then (case (fdom f, alternate f) of
              (Some d, Some b) \<Rightarrow>
                (case fiber_at (fibers s) b of
                   None \<Rightarrow> None
                 | Some af \<Rightarrow> Some (s\<lparr>host_ops := host_ops s @ update_dom d (props af) (props f)\<rparr>))
            | _ \<Rightarrow> None)
      else if effect_tag f = Some DELETION
      then commit_deletion (Some a) dom_parent s
      else Some s)"

partial_function (option) commit_work :: "fid option \<Rightarrow> pygui \<Rightarrow> pygui option" where
  "commit_work fiber s =
     (case fiber of
        None \<Rightarrow> Some s
      | Some a \<Rightarrow>
          (case fiber_at (fibers s) a of
             None \<Rightarrow> None
           | Some f \<Rightarrow>
               (case find_dom_parent (fibers s) (parent f) of
                  None \<Rightarrow> None
                | Some dom_parent \<Rightarrow>
                    (case commit_effect a f dom_parent s of
                       None \<Rightarrow> None
                     | Some s1 \<Rightarrow>
                         do {
                           s2 \<leftarrow> commit_work (child f) s1;
                           commit_work (sibling f) s2
                         }))))"

declare commit_work.simps [code]

text \<open>The \<open>for\<close> loop of \<open>commit_root\<close> over the deletions.\<close>

fun commit_deletions :: "fid list \<Rightarrow> pygui \<Rightarrow> pygui option" where
  "commit_deletions [] s = Some s"
| "commit_deletions (deletion # ds) s =
     (case commit_work (Some deletion) s of
        None \<Rightarrow> None
      | Some s1 \<Rightarrow> commit_deletions ds s1)"

definition commit_root :: "pygui \<Rightarrow> pygui option" where
  "commit_root s =
     do {
       ds \<leftarrow> deletions s;
       s1 \<leftarrow> commit_deletions ds s;
       r \<leftarrow> wip_root s1;
       rf \<leftarrow> fiber_at (fibers s1) r;
       s2 \<leftarrow> commit_work (child rf) s1;
       Some (s2\<lparr>current_root := wip_root s2, wip_root := None\<rparr>)
     }"

section \<open>The work loop\<close>

text \<open>
  The \<open>while\<close> loop of \<open>work_loop\<close>: one unit, then one reading of the clock, then
  the test of the budget.
\<close>

partial_function (option) run_units :: "world \<Rightarrow> int \<Rightarrow> pygui \<Rightarrow> pygui option" where
  "run_units w deadline s =
     (case next_unit_of_work s of
        None \<Rightarrow> Some s
      | Some a \<Rightarrow>
          (case perform_unit_of_work w a s of
             None \<Rightarrow> None
           | Some (n, s1) \<Rightarrow>
               (if deadline - clock w (ticks s1) < 1 * 1000000
                then Some (s1\<lparr>next_unit_of_work := n, ticks := Suc (ticks s1)\<rparr>)
                else run_units w deadline (s1\<lparr>next_unit_of_work := n, ticks := Suc (ticks s1)\<rparr>))))"

declare run_units.simps [code]

definition work_loop :: "world \<Rightarrow> int \<Rightarrow> pygui \<Rightarrow> pygui option" where
  "work_loop w deadline s =
     do {
       s1 \<leftarrow> run_units w deadline s;
       s2 \<leftarrow> (if next_unit_of_work s1 = None \<and> wip_root s1 \<noteq> None
               then commit_root s1 else Some s1);
       if next_unit_of_work s2 \<noteq> None
       then Some (request_idle_work w None s2)
       else (case render_callback s2 of
               None \<Rightarrow> Some s2
             | Some cb \<Rightarrow> Some (s2\<lparr>called := called s2 @ [cb]\<rparr>))
     }"

section \<open>What the host loop can do to the engine\<close>

text \<open>
  Between two slices the host loop may call \<open>render\<close>, a watcher may fire
  (\<open>state_updated\<close>), or the timer may time out and call \<open>work_loop\<close> with the
  deadline that \<open>request_idle_work\<close> bound; a single-shot timer fires once per start.
\<close>

datatype event = Render "pydict vnode" handle "nat option" | StateUpdated | TimerTimeout

definition timer_timeout :: "world \<Rightarrow> pygui \<Rightarrow> pygui option" where
  "timer_timeout w s =
     (case qt_timer s of
        None \<Rightarrow> Some s
      | Some t \<Rightarrow>
          if running t
          then (case slot t of
                  None \<Rightarrow> Some (s\<lparr>qt_timer := Some (t\<lparr>running := False\<rparr>)\<rparr>)
                | Some deadline \<Rightarrow> work_loop w deadline (s\<lparr>qt_timer := Some (t\<lparr>running := False\<rparr>)\<rparr>))
          else Some s)"

definition step :: "world \<Rightarrow> event \<Rightarrow> pygui \<Rightarrow> pygui option" where
  "step w e s =
     (case e of
        Render element container callback \<Rightarrow> Some (render w element container callback s)
      | StateUpdated \<Rightarrow> state_updated w s
      | TimerTimeout \<Rightarrow> timer_timeout w s)"

text \<open>The states after each event of a sequence of events.\<close>

fun run_events :: "world \<Rightarrow> event list \<Rightarrow> pygui \<Rightarrow> pygui list option" where
  "run_events w [] s = Some []"
| "run_events w (e # es) s =
     (case step w e s of
        None \<Rightarrow> None
      | Some s1 \<Rightarrow> map_option (\<lambda>ss. s1 # ss) (run_events w es s1))"

text \<open>The state an engine created by \<open>PyGui()\<close> is in after a sequence of events.\<close>

definition run_last :: "world \<Rightarrow> event list \<Rightarrow> pygui option" where
  "run_last w es =
     (case run_events w es init_pygui of
        None \<Rightarrow> None
      | Some ss \<Rightarrow> Some (last (init_pygui # ss)))"

text \<open>The calls that change the shape of the host tree.\<close>

fun is_tree_op :: "host_op \<Rightarrow> bool" where
  "is_tree_op (Add p c) = True"
| "is_tree_op (Remove p c) = True"
| "is_tree_op op = False"

definition tree_ops :: "host_op list \<Rightarrow> host_op list" where
  "tree_ops ops = filter is_tree_op ops"

section \<open>Fiber trees in the store\<close>

text \<open>
  The shape of a generation: a fiber and the trees of its children, left to right.
  \<open>is_tree h par sib t\<close> holds when the store \<open>h\<close> links the fibers of \<open>t\<close> as
  \<open>reconcile_children\<close> does: every fiber points to its parent, to its first child
  and to its next sibling.
\<close>

datatype ftree = FNode fid "ftree list"

fun root_of :: "ftree \<Rightarrow> fid" where
  "root_of (FNode a ts) = a"

fun first_root :: "ftree list \<Rightarrow> fid option" where
  "first_root [] = None"
| "first_root (t # ts) = Some (root_of t)"

fun preorder :: "ftree \<Rightarrow> fid list" where
  "preorder (FNode a ts) = a # concat (map preorder ts)"

fun is_tree :: "fiber list \<Rightarrow> fid option \<Rightarrow> fid option \<Rightarrow> ftree \<Rightarrow> bool"
  and is_forest :: "fiber list \<Rightarrow> fid \<Rightarrow> ftree list \<Rightarrow> bool" where
  "is_tree h par sib (FNode a ts) =
     (case fiber_at h a of
        None \<Rightarrow> False
      | Some f \<Rightarrow>
          parent f = par \<and> sibling f = sib \<and> child f = first_root ts \<and> is_forest h a ts)"
| "is_forest h p [] = True"
| "is_forest h p (t # ts) = (is_tree h (Some p) (first_root ts) t \<and> is_forest h p ts)"

text \<open>
  \<open>successive nxt as last\<close>: following \<open>nxt\<close> from the head of \<open>as\<close> visits exactly
  \<open>as\<close>, in this order, and \<open>nxt\<close> of its last element is \<open>last\<close>.
\<close>

fun successive :: "(fid \<Rightarrow> fid option option) \<Rightarrow> fid list \<Rightarrow> fid option \<Rightarrow> bool" where
  "successive nxt [] lst = True"
| "successive nxt [a] lst = (nxt a = Some lst)"
| "successive nxt (a # b # bs) lst = (nxt a = Some (Some b) \<and> successive nxt (b # bs) lst)"

section \<open>Example components and inputs\<close>

text \<open>
  \<open>Items\<close> of \<open>test_reconcile_by_key\<close>: an \<open>items\<close> element with one \<open>item\<close> child
  per entry of \<open>props["items"]\<close>, each with the entry as key and as content.
\<close>

definition items_component :: "pydict \<Rightarrow> comp" where
  "items_component ps =
     Return (VNode (Host ''items'') ps
       (case dict_get ps ''items'' of
          PList xs \<Rightarrow> map (\<lambda>x. VNode (Host ''item'') [(''content'', x)] [] x) xs
        | _ \<Rightarrow> [])
       PNone)"

text \<open>A component with one hook, whose value it shows as \<open>count\<close>.\<close>

definition counter_component :: "pydict \<Rightarrow> comp" where
  "counter_component ps =
     UseState (PInt 0) (\<lambda>v. Return (VNode (Host ''counter'') [(''count'', v)] [] PNone))"

definition example_world :: world where
  "example_world =
     \<lparr>components = (\<lambda>c. if c = 0 then items_component else counter_component),
      clock = (\<lambda>n. int n * 1000),
      reactive = (\<lambda>v. v)\<rparr>"

text \<open>A host loop in which 20 ms pass between two readings of the clock.\<close>

definition slow_world :: world where
  "slow_world = example_world\<lparr>clock := (\<lambda>n. int n * 20000000)\<rparr>"

definition items_element :: "pyval list \<Rightarrow> pydict vnode" where
  "items_element xs = VNode (Component 0) [(''items'', PList xs)] [] PNone"

definition abc :: "pyval list" where
  "abc = [PStr ''a'', PStr ''b'', PStr ''c'']"

definition cab :: "pyval list" where
  "cab = [PStr ''c'', PStr ''a'', PStr ''b'']"

text \<open>A \<open>div\<close> with a \<open>span\<close> inside, and a \<open>p\<close>.\<close>

definition div_span :: "pydict vnode" where
  "div_span = VNode (Host ''div'') [] [VNode (Host ''span'') [] [] PNone] PNone"

definition par_element :: "pydict vnode" where
  "par_element = VNode (Host ''p'') [] [] PNone"

definition counter_element :: "pydict vnode" where
  "counter_element = VNode (Component 1) [] [] PNone"

definition slow_start :: pygui where
  "slow_start = render slow_world div_span (Container 0) None init_pygui"

definition fast_start :: pygui where
  "fast_start = render example_world div_span (Container 0) None init_pygui"

text \<open>
  A component fiber in its second render, with the fiber of the first render as
  alternate; the first render made one hook.
\<close>

definition first_render_fiber :: fiber where
  "first_render_fiber =
     (placement_fiber 0 counter_element)\<lparr>hooks := Some [\<lparr>state = PInt 5, queue = [], watcher = 0\<rparr>]\<rparr>"

definition second_render_state :: "nat \<Rightarrow> pygui" where
  "second_render_state cursor =
     init_pygui\<lparr>fibers := [first_render_fiber,
                             (update_fiber 0 0 first_render_fiber counter_element)\<lparr>hooks := Some []\<rparr>],
                wip_fiber := Some 1, hook_index := Some cursor, subscriptions := [Active]\<rparr>"

text \<open>A component fiber in its first render.\<close>

definition first_render_state :: pygui where
  "first_render_state =
     init_pygui\<lparr>fibers := [(placement_fiber 0 counter_element)\<lparr>hooks := Some []\<rparr>],
                wip_fiber := Some 0, hook_index := Some 0\<rparr>"

text \<open>
  The state in which \<open>work_loop\<close> calls \<open>commit_root\<close> when a function component with a
  hook is replaced by a \<open>p\<close>.
\<close>

definition before_deletion_commit :: "pygui option" where
  "before_deletion_commit =
     Option.bind
       (run_last example_world
          [Render counter_element (Container 0) None, TimerTimeout,
           Render par_element (Container 0) None])
       (run_units example_world 1000000000)"

text \<open>
  The shape of the generation that rendering \<open>Items\<close> with \<open>abc\<close> builds: the root, the
  component, the \<open>items\<close> element and its three \<open>item\<close> children.
\<close>

definition items_tree :: ftree where
  "items_tree = FNode 0 [FNode 1 [FNode 2 [FNode 3 [], FNode 4 [], FNode 5 []]]]"


text \<open>
  A \<open>div\<close> with a \<open>span\<close> and a \<open>p\<close> inside, and a \<open>div\<close> with two \<open>span\<close>s inside.
\<close>

definition div_span_par :: "pydict vnode" where
  "div_span_par = VNode (Host ''div'') [] [VNode (Host ''span'') [] [] PNone, par_element] PNone"

definition div_two_spans :: "pydict vnode" where
  "div_two_spans =
     VNode (Host ''div'') [] [VNode (Host ''span'') [] [] PNone, VNode (Host ''span'') [] [] PNone] PNone"

text \<open>
  The state in which \<open>perform_unit_of_work\<close> is called for the \<open>div\<close> of a second
  render: the first render (four units, one per slice) is committed, the second
  render is requested and its root is done.
\<close>

definition second_render_div :: "pygui option" where
  "second_render_div =
     run_last slow_world
       [Render div_span_par (Container 0) None,
        TimerTimeout, TimerTimeout, TimerTimeout, TimerTimeout,
        Render div_two_spans (Container 0) None, TimerTimeout]"

section \<open>What a phase leaves alone\<close>

text \<open>
  \<open>same_but_ops s s'\<close>: the two states differ at most in the calls made on the
  renderer.  \<open>render_frame s s'\<close>: \<open>s'\<close> differs from \<open>s\<close> at most in what a unit of
  work may touch (fibers, deletions, hooks, subscriptions, new host objects and the
  calls that set them up).  \<open>slice_frame\<close> is the same for a run of units, which also
  moves \<open>next_unit_of_work\<close> and reads the clock.
\<close>

definition same_but_ops :: "pygui \<Rightarrow> pygui \<Rightarrow> bool" where
  "same_but_ops s s' =
     (next_unit_of_work s' = next_unit_of_work s \<and> current_root s' = current_root s \<and>
      wip_root s' = wip_root s \<and> deletions s' = deletions s \<and> wip_fiber s' = wip_fiber s \<and>
      hook_index s' = hook_index s \<and> qt_timer s' = qt_timer s \<and>
      render_callback s' = render_callback s \<and> fibers s' = fibers s \<and>
      created s' = created s \<and> subscriptions s' = subscriptions s \<and> ticks s' = ticks s \<and>
      called s' = called s)"

definition render_frame :: "pygui \<Rightarrow> pygui \<Rightarrow> bool" where
  "render_frame s s' =
     (next_unit_of_work s' = next_unit_of_work s \<and> current_root s' = current_root s \<and>
      wip_root s' = wip_root s \<and> qt_timer s' = qt_timer s \<and>
      render_callback s' = render_callback s \<and> ticks s' = ticks s \<and>
      called s' = called s \<and> tree_ops (host_ops s') = tree_ops (host_ops s))"

definition slice_frame :: "pygui \<Rightarrow> pygui \<Rightarrow> bool" where
  "slice_frame s s' =
     (current_root s' = current_root s \<and> wip_root s' = wip_root s \<and>
      qt_timer s' = qt_timer s \<and> render_callback s' = render_callback s \<and>
      called s' = called s \<and> tree_ops (host_ops s') = tree_ops (host_ops s))"

text \<open>
  \<open>slice_budget w d s s'\<close>: between \<open>s\<close> and \<open>s'\<close> every reading of the clock but the
  last left a budget of at least 1 ms before the deadline \<open>d\<close>, and if a unit of work
  remains in \<open>s'\<close>, then a reading was taken and the last one left less than 1 ms.
\<close>

definition slice_budget :: "world \<Rightarrow> int \<Rightarrow> pygui \<Rightarrow> pygui \<Rightarrow> bool" where
  "slice_budget w d s s' =
     (ticks s \<le> ticks s' \<and>
      (\<forall>j. ticks s \<le> j \<and> Suc j < ticks s' \<longrightarrow> 1000000 \<le> d - clock w j) \<and>
      (next_unit_of_work s' \<noteq> None \<longrightarrow> ticks s < ticks s' \<and> d - clock w (ticks s' - 1) < 1000000))"

section \<open>Calls made on the renderer during the render phase\<close>



section \<open>Old fibers and new fibers in the store\<close>

text \<open>
  \<open>old_chain h old os\<close>: in the store \<open>h\<close> the old fiber \<open>old\<close> and its siblings are the
  fibers \<open>os\<close>, in this order, each with a \<open>type\<close>, and the chain ends.
\<close>

fun old_chain :: "fiber list \<Rightarrow> fid option \<Rightarrow> fid list \<Rightarrow> bool" where
  "old_chain h None [] = True"
| "old_chain h (Some a) (b # bs) =
     (a = b \<and> (case fiber_at h a of
                  None \<Rightarrow> False
                | Some f \<Rightarrow> ftype f \<noteq> None \<and> old_chain h (sibling f) bs))"
| "old_chain h None (b # bs) = False"
| "old_chain h (Some a) [] = False"

text \<open>The two writes of the loop body into fibers that exist already.\<close>

definition tag_deleted :: "fid \<Rightarrow> fiber list \<Rightarrow> fiber list" where
  "tag_deleted ofa h = h[ofa := (h ! ofa)\<lparr>effect_tag := Some DELETION\<rparr>]"

definition link_fiber :: "fid \<Rightarrow> nat \<Rightarrow> fid option \<Rightarrow> fid option \<Rightarrow> fiber list \<Rightarrow> fiber list" where
  "link_fiber wip i prev new h =
     (if i = 0 then h[wip := (h ! wip)\<lparr>child := new\<rparr>]
      else (case prev of None \<Rightarrow> h | Some ps \<Rightarrow> h[ps := (h ! ps)\<lparr>sibling := new\<rparr>]))"

text \<open>
  \<open>old_kept os h h'\<close>: every fiber of \<open>h\<close> is in \<open>h'\<close> at its address with its type, props,
  children, host object, parent, alternate and hooks, and with its effect tag, unless
  it is one of \<open>os\<close> and is tagged \<open>DELETION\<close> in \<open>h'\<close>.
\<close>

definition old_kept :: "fid list \<Rightarrow> fiber list \<Rightarrow> fiber list \<Rightarrow> bool" where
  "old_kept os h h' =
     (length h \<le> length h' \<and>
      (\<forall>a<length h.
         ftype (h' ! a) = ftype (h ! a) \<and> props (h' ! a) = props (h ! a) \<and>
         children (h' ! a) = children (h ! a) \<and> fdom (h' ! a) = fdom (h ! a) \<and>
         parent (h' ! a) = parent (h ! a) \<and> alternate (h' ! a) = alternate (h ! a) \<and>
         hooks (h' ! a) = hooks (h ! a) \<and>
         (effect_tag (h' ! a) = effect_tag (h ! a) \<or>
          a \<in> set os \<and> effect_tag (h' ! a) = Some DELETION)))"

text \<open>
  \<open>new_result wip h h' old e n\<close>: the fiber at address \<open>n\<close> of \<open>h'\<close> is the new fiber for the
  element \<open>e\<close> under \<open>wip\<close>, made against the old fiber \<open>old\<close> of \<open>h\<close> (if any): an
  update that has the host object of the old fiber and the old fiber as alternate when
  the old fiber has the type of the element, and otherwise a placement without a host
  object and without alternate; in both cases without hooks.
\<close>

definition new_result ::
  "fid \<Rightarrow> fiber list \<Rightarrow> fiber list \<Rightarrow> fid option \<Rightarrow> pydict vnode \<Rightarrow> fid \<Rightarrow> bool" where
  "new_result wip h h' old e n =
     (parent (h' ! n) = Some wip \<and> props (h' ! n) = vprops e \<and>
      children (h' ! n) = vchildren e \<and> ftype (h' ! n) = Some (vtype e) \<and>
      hooks (h' ! n) = None \<and>
      (case old of
         None \<Rightarrow>
           effect_tag (h' ! n) = Some PLACEMENT \<and> fdom (h' ! n) = None \<and>
           alternate (h' ! n) = None
       | Some ofa \<Rightarrow>
           if ftype (h ! ofa) = Some (vtype e)
           then effect_tag (h' ! n) = Some UPDATE \<and> fdom (h' ! n) = fdom (h ! ofa) \<and>
                alternate (h' ! n) = Some ofa
           else effect_tag (h' ! n) = Some PLACEMENT \<and> fdom (h' ! n) = None \<and>
                alternate (h' ! n) = None))"

text \<open>
  \<open>deleted_olds h els i os\<close>: of the old fibers \<open>os\<close>, met by the loop from index \<open>i\<close> on,
  those that have no element of their own type at their index.
\<close>

fun deleted_olds :: "fiber list \<Rightarrow> pydict vnode list \<Rightarrow> nat \<Rightarrow> fid list \<Rightarrow> fid list" where
  "deleted_olds h els i [] = []"
| "deleted_olds h els i (a # as) =
     (if i < length els \<and> ftype (h ! a) = Some (vtype (els ! i)) then [] else [a]) @
     deleted_olds h els (Suc i) as"

text \<open>
  \<open>reconciled wip els i os h ds h' ds'\<close>: what the loop of \<open>reconcile_children\<close>, entered
  at index \<open>i\<close> with the old fibers \<open>os\<close> left, the store \<open>h\<close> and the deletions \<open>ds\<close>,
  has made when it ends with the store \<open>h'\<close> and the deletions \<open>ds'\<close>.
\<close>

definition reconciled ::
  "fid \<Rightarrow> pydict vnode list \<Rightarrow> nat \<Rightarrow> fid list \<Rightarrow> fiber list \<Rightarrow> fid list
     \<Rightarrow> fiber list \<Rightarrow> fid list option \<Rightarrow> bool" where
  "reconciled wip els i os h ds h' ds' =
     (length h' = length h + (length els - i) \<and>
      old_kept (deleted_olds h els i os) h h' \<and>
      ds' = Some (ds @ deleted_olds h els i os) \<and>
      (\<forall>k. i + k < length els \<longrightarrow>
         new_result wip h h' (if k < length os then Some (os ! k) else None)
           (els ! (i + k)) (length h + k)) \<and>
      (\<forall>a\<in>set (deleted_olds h els i os). effect_tag (h' ! a) = Some DELETION))"

section \<open>Frame lemmas\<close>

lemma same_but_ops_refl: "same_but_ops s s"
  by (simp add: same_but_ops_def)

lemma same_but_ops_trans:
  "same_but_ops s s1 \<Longrightarrow> same_but_ops s1 s2 \<Longrightarrow> same_but_ops s s2"
  by (simp add: same_but_ops_def)

lemma same_but_ops_update: "same_but_ops s (s\<lparr>host_ops := x\<rparr>)"
  by (simp add: same_but_ops_def)

lemma commit_deletion_only_ops:
  assumes "commit_deletion f dp s = Some s'"
  shows "same_but_ops s s'"
proof (rule commit_deletion.raw_induct[where P = "\<lambda>f dp s s'. same_but_ops s s'", OF _ assms])
  fix cd f dp s s'
  assume ih: "\<And>f dp s s'. cd f dp s = Some s' \<Longrightarrow> same_but_ops s s'"
    and body: "(case f of None \<Rightarrow> None
      | Some a \<Rightarrow>
          (case fiber_at (fibers s) a of
             None \<Rightarrow> None
           | Some f \<Rightarrow>
               (case fdom f of
                  Some d \<Rightarrow> Some (s\<lparr>host_ops := host_ops s @ [Remove dp d]\<rparr>)
                | None \<Rightarrow> cd (child f) dp s))) = Some s'"
  from body show "same_but_ops s s'"
    by (auto split: option.splits simp: same_but_ops_update dest: ih)
qed

lemma commit_effect_only_ops:
  "commit_effect a f dp s = Some s' \<Longrightarrow> same_but_ops s s'"
  by (auto simp: commit_effect_def same_but_ops_update same_but_ops_refl
      split: if_splits option.splits dest: commit_deletion_only_ops)

lemma commit_work_only_ops:
  assumes "commit_work f s = Some s'"
  shows "same_but_ops s s'"
proof (rule commit_work.raw_induct[where P = "\<lambda>f s s'. same_but_ops s s'", OF _ assms])
  fix cw f s s'
  assume ih: "\<And>f s s'. cw f s = Some s' \<Longrightarrow> same_but_ops s s'"
    and body: "(case f of
        None \<Rightarrow> Some s
      | Some a \<Rightarrow>
          (case fiber_at (fibers s) a of
             None \<Rightarrow> None
           | Some f \<Rightarrow>
               (case find_dom_parent (fibers s) (parent f) of
                  None \<Rightarrow> None
                | Some dom_parent \<Rightarrow>
                    (case commit_effect a f dom_parent s of
                       None \<Rightarrow> None
                     | Some s1 \<Rightarrow>
                         do {
                           s2 \<leftarrow> cw (child f) s1;
                           cw (sibling f) s2
                         })))) = Some s'"
  show "same_but_ops s s'"
  proof (cases f)
    case None
    with body show ?thesis by (simp add: same_but_ops_refl)
  next
    case (Some a)
    with body obtain fb dp s1 s2 where
      e: "commit_effect a fb dp s = Some s1" and c: "cw (child fb) s1 = Some s2"
      and sb: "cw (sibling fb) s2 = Some s'"
      by (auto split: option.splits bind_splits)
    from commit_effect_only_ops[OF e] ih[OF c] ih[OF sb] show ?thesis
      by (blast intro: same_but_ops_trans)
  qed
qed

lemma commit_deletions_only_ops:
  "commit_deletions ds s = Some s' \<Longrightarrow> same_but_ops s s'"
proof (induction ds arbitrary: s)
  case Nil
  then show ?case by (simp add: same_but_ops_refl)
next
  case (Cons d ds)
  then show ?case
    by (auto split: option.splits dest: commit_work_only_ops intro: same_but_ops_trans)
qed

lemma render_frame_refl: "render_frame s s"
  by (simp add: render_frame_def)

lemma render_frame_trans:
  "render_frame s s1 \<Longrightarrow> render_frame s1 s2 \<Longrightarrow> render_frame s s2"
  by (simp add: render_frame_def)

lemma tree_ops_append: "tree_ops (xs @ ys) = tree_ops xs @ tree_ops ys"
  by (simp add: tree_ops_def)

lemma tree_ops_concat_map:
  "(\<And>x. tree_ops (f x) = []) \<Longrightarrow> tree_ops (concat (map f xs)) = []"
  by (induction xs) (simp_all add: tree_ops_def)

lemma tree_ops_remove_old_listeners: "tree_ops (remove_old_listeners n p q) = []"
  unfolding remove_old_listeners_def
  by (rule tree_ops_concat_map) (simp add: tree_ops_def split: prod.splits)

lemma tree_ops_remove_old_properties: "tree_ops (remove_old_properties n p q) = []"
  unfolding remove_old_properties_def
  by (rule tree_ops_concat_map) (simp add: tree_ops_def split: prod.splits)

lemma tree_ops_set_new_properties: "tree_ops (set_new_properties n p q) = []"
  unfolding set_new_properties_def
  by (rule tree_ops_concat_map) (simp add: tree_ops_def split: prod.splits)

lemma tree_ops_add_new_listeners: "tree_ops (add_new_listeners n p q) = []"
  unfolding add_new_listeners_def
  by (rule tree_ops_concat_map) (simp add: tree_ops_def split: prod.splits)

lemma tree_ops_update_dom: "tree_ops (update_dom n p q) = []"
  by (simp add: update_dom_def tree_ops_append tree_ops_remove_old_listeners
      tree_ops_remove_old_properties tree_ops_set_new_properties tree_ops_add_new_listeners)

lemma reconcile_step_frame:
  assumes "reconcile_step wip els i old prev s = Some (old', new, s')"
  shows "render_frame s s'"
proof -
  from assms show ?thesis
    unfolding reconcile_step_def Let_def
    by (auto simp: render_frame_def split: bind_splits option.splits if_splits prod.splits bool.splits)
qed

lemma reconcile_loop_frame:
  assumes "reconcile_loop wip els i old prev s = Some s'"
  shows "render_frame s s'"
proof (rule reconcile_loop.raw_induct[where P = "\<lambda>wip els i old prev s s'. render_frame s s'", OF _ assms])
  fix rl wip els i old prev s s'
  assume ih: "\<And>wip els i old prev s s'. rl wip els i old prev s = Some s' \<Longrightarrow> render_frame s s'"
    and body: "(if i < length els \<or> old \<noteq> None
      then (case reconcile_step wip els i old prev s of
              None \<Rightarrow> None
            | Some (old_fiber', new_fiber, s') \<Rightarrow> rl wip els (i + 1) old_fiber' new_fiber s')
      else Some s) = Some s'"
  from body show "render_frame s s'"
    by (auto split: if_splits option.splits simp: render_frame_refl
        dest!: reconcile_step_frame ih intro: render_frame_trans)
qed

lemma reconcile_children_frame:
  "reconcile_children wip els s = Some s' \<Longrightarrow> render_frame s s'"
  unfolding reconcile_children_def
  by (auto split: bind_splits option.splits dest: reconcile_loop_frame)

lemma use_state_frame:
  "use_state w i s = Some (v, s') \<Longrightarrow> render_frame s s'"
  unfolding use_state_def Let_def
  by (auto simp: render_frame_def split: bind_splits)

lemma run_component_frame:
  "run_component w c s = Some (v, s') \<Longrightarrow> render_frame s s'"
proof (induction c arbitrary: s)
  case (Return x)
  then show ?case by (simp add: render_frame_refl)
next
  case (UseState i k)
  from UseState.prems obtain u s1 where
    u: "use_state w i s = Some (u, s1)" and r: "run_component w (k u) s1 = Some (v, s')"
    by (auto split: option.splits)
  from UseState.IH[OF rangeI r] use_state_frame[OF u] show ?case
    by (rule render_frame_trans[rotated])
qed

lemma update_function_component_frame:
  "update_function_component w a s = Some s' \<Longrightarrow> render_frame s s'"
  unfolding update_function_component_def Let_def
  apply (auto split: bind_splits option.splits ntype.splits prod.splits dest!: run_component_frame reconcile_children_frame)
  apply (auto simp: render_frame_def)
  done

lemma create_dom_frame:
  "create_dom f s = Some (n, s') \<Longrightarrow> render_frame s s'"
  unfolding create_dom_def Let_def
  by (auto simp: render_frame_def tree_ops_append tree_ops_update_dom
      tree_ops_update_dom[unfolded tree_ops_def] tree_ops_def split: option.splits ntype.splits)

lemma update_host_component_frame:
  "update_host_component a s = Some s' \<Longrightarrow> render_frame s s'"
  unfolding update_host_component_def
  apply (auto split: bind_splits option.splits prod.splits dest!: create_dom_frame reconcile_children_frame)
  apply (auto simp: render_frame_def)
  done

lemma perform_unit_of_work_frame:
  "perform_unit_of_work w a s = Some (n, s') \<Longrightarrow> render_frame s s'"
  unfolding perform_unit_of_work_def
  by (auto split: bind_splits option.splits ntype.splits
      dest: update_function_component_frame update_host_component_frame)

lemma slice_frame_refl: "slice_frame s s"
  by (simp add: slice_frame_def)

lemma slice_frame_trans: "slice_frame s s1 \<Longrightarrow> slice_frame s1 s2 \<Longrightarrow> slice_frame s s2"
  by (simp add: slice_frame_def)

lemma render_frame_slice:
  "render_frame s s1 \<Longrightarrow> slice_frame s (s1\<lparr>next_unit_of_work := n, ticks := t\<rparr>)"
  by (simp add: render_frame_def slice_frame_def)

lemma run_units_frame:
  assumes "run_units w d s = Some s'"
  shows "slice_frame s s'"
proof (rule run_units.raw_induct[where P = "\<lambda>w d s s'. slice_frame s s'", OF _ assms])
  fix ru w d s s'
  assume ih: "\<And>w d s s'. ru w d s = Some s' \<Longrightarrow> slice_frame s s'"
    and body: "(case next_unit_of_work s of
        None \<Rightarrow> Some s
      | Some a \<Rightarrow>
          (case perform_unit_of_work w a s of
             None \<Rightarrow> None
           | Some (n, s1) \<Rightarrow>
               (if d - clock w (ticks s1) < 1 * 1000000
                then Some (s1\<lparr>next_unit_of_work := n, ticks := Suc (ticks s1)\<rparr>)
                else ru w d (s1\<lparr>next_unit_of_work := n, ticks := Suc (ticks s1)\<rparr>)))) = Some s'"
  show "slice_frame s s'"
  proof (cases "next_unit_of_work s")
    case None
    with body show ?thesis by (simp add: slice_frame_refl)
  next
    case (Some a)
    with body obtain n s1 where p: "perform_unit_of_work w a s = Some (n, s1)"
      and r: "(if d - clock w (ticks s1) < 1 * 1000000
                then Some (s1\<lparr>next_unit_of_work := n, ticks := Suc (ticks s1)\<rparr>)
                else ru w d (s1\<lparr>next_unit_of_work := n, ticks := Suc (ticks s1)\<rparr>)) = Some s'"
      by (auto split: option.splits)
    have f: "slice_frame s (s1\<lparr>next_unit_of_work := n, ticks := Suc (ticks s1)\<rparr>)"
      by (rule render_frame_slice[OF perform_unit_of_work_frame[OF p]])
    from r show ?thesis
    proof (cases "d - clock w (ticks s1) < 1 * 1000000")
      case True
      with r f show ?thesis by simp
    next
      case False
      with r have "ru w d (s1\<lparr>next_unit_of_work := n, ticks := Suc (ticks s1)\<rparr>) = Some s'"
        by simp
      from slice_frame_trans[OF f ih[OF this]] show ?thesis .
    qed
  qed
qed

lemma run_units_budget:
  assumes "run_units w d s = Some s'"
  shows "slice_budget w d s s'"
proof (rule run_units.raw_induct[where P = "\<lambda>w d s s'. slice_budget w d s s'", OF _ assms])
  fix ru w d s s'
  assume ih: "\<And>w d s s'. ru w d s = Some s' \<Longrightarrow> slice_budget w d s s'"
    and body: "(case next_unit_of_work s of
        None \<Rightarrow> Some s
      | Some a \<Rightarrow>
          (case perform_unit_of_work w a s of
             None \<Rightarrow> None
           | Some (n, s1) \<Rightarrow>
               (if d - clock w (ticks s1) < 1 * 1000000
                then Some (s1\<lparr>next_unit_of_work := n, ticks := Suc (ticks s1)\<rparr>)
                else ru w d (s1\<lparr>next_unit_of_work := n, ticks := Suc (ticks s1)\<rparr>)))) = Some s'"
  show "slice_budget w d s s'"
  proof (cases "next_unit_of_work s")
    case None
    with body show ?thesis by (simp add: slice_budget_def)
  next
    case (Some a)
    with body obtain n s1 where p: "perform_unit_of_work w a s = Some (n, s1)"
      and r: "(if d - clock w (ticks s1) < 1 * 1000000
                then Some (s1\<lparr>next_unit_of_work := n, ticks := Suc (ticks s1)\<rparr>)
                else ru w d (s1\<lparr>next_unit_of_work := n, ticks := Suc (ticks s1)\<rparr>)) = Some s'"
      by (auto split: option.splits)
    have t: "ticks s1 = ticks s"
      using perform_unit_of_work_frame[OF p] by (simp add: render_frame_def)
    show ?thesis
    proof (cases "d - clock w (ticks s1) < 1 * 1000000")
      case True
      with r t show ?thesis by (auto simp: slice_budget_def)
    next
      case False
      with r have "ru w d (s1\<lparr>next_unit_of_work := n, ticks := Suc (ticks s1)\<rparr>) = Some s'"
        by simp
      from ih[OF this] have b: "slice_budget w d (s1\<lparr>next_unit_of_work := n, ticks := Suc (ticks s1)\<rparr>) s'" .
      show ?thesis
        unfolding slice_budget_def
      proof (intro conjI allI impI)
        show "ticks s \<le> ticks s'" using b t by (simp add: slice_budget_def)
      next
        fix j assume j: "ticks s \<le> j \<and> Suc j < ticks s'"
        show "1000000 \<le> d - clock w j"
        proof (cases "j = ticks s")
          case True
          with False t show ?thesis by simp
        next
          case False
          with j have "Suc (ticks s) \<le> j" by simp
          with b j t show ?thesis by (simp add: slice_budget_def)
        qed
      next
        assume "next_unit_of_work s' \<noteq> None"
        with b t show "ticks s < ticks s'" by (simp add: slice_budget_def)
      next
        assume "next_unit_of_work s' \<noteq> None"
        with b t show "d - clock w (ticks s' - 1) < 1000000" by (simp add: slice_budget_def)
      qed
    qed
  qed
qed

lemma commit_root_result:
  assumes "commit_root s = Some s'"
  shows "next_unit_of_work s' = next_unit_of_work s \<and> current_root s' = wip_root s \<and>
         wip_root s' = None \<and> subscriptions s' = subscriptions s \<and> fibers s' = fibers s \<and>
         qt_timer s' = qt_timer s \<and> ticks s' = ticks s"
proof -
  from assms obtain ds s1 and rf :: fiber and s2 where
    d: "commit_deletions ds s = Some s1" and c: "commit_work (child rf) s1 = Some s2"
    and e: "s' = s2\<lparr>current_root := wip_root s2, wip_root := None\<rparr>"
    by (auto simp: commit_root_def split: bind_splits)
  from commit_deletions_only_ops[OF d] commit_work_only_ops[OF c] e show ?thesis
    by (simp add: same_but_ops_def)
qed

lemma work_loop_cases:
  assumes "work_loop w d s = Some s'"
  obtains (yield) s1 where "run_units w d s = Some s1" "next_unit_of_work s1 \<noteq> None"
      "s' = request_idle_work w None s1"
    | (commit) s1 s2 where "run_units w d s = Some s1" "next_unit_of_work s1 = None"
      "wip_root s1 \<noteq> None" "commit_root s1 = Some s2"
      "s' = (case render_callback s2 of None \<Rightarrow> s2 | Some cb \<Rightarrow> s2\<lparr>called := called s2 @ [cb]\<rparr>)"
    | (idle) s1 where "run_units w d s = Some s1" "next_unit_of_work s1 = None"
      "wip_root s1 = None"
      "s' = (case render_callback s1 of None \<Rightarrow> s1 | Some cb \<Rightarrow> s1\<lparr>called := called s1 @ [cb]\<rparr>)"
proof -
  from assms obtain s1 where r: "run_units w d s = Some s1"
    by (auto simp: work_loop_def split: bind_splits)
  show thesis
  proof (cases "next_unit_of_work s1 = None")
    case False
    with assms r have "s' = request_idle_work w None s1"
      by (auto simp: work_loop_def split: bind_splits if_splits option.splits)
    with r False show ?thesis by (rule yield)
  next
    case True
    show ?thesis
    proof (cases "wip_root s1 = None")
      case True
      with assms r \<open>next_unit_of_work s1 = None\<close>
      have "s' = (case render_callback s1 of None \<Rightarrow> s1 | Some cb \<Rightarrow> s1\<lparr>called := called s1 @ [cb]\<rparr>)"
        by (auto simp: work_loop_def split: bind_splits if_splits option.splits)
      with r \<open>next_unit_of_work s1 = None\<close> True show ?thesis by (rule idle)
    next
      case False
      with assms r \<open>next_unit_of_work s1 = None\<close> obtain s2 where c: "commit_root s1 = Some s2"
        by (auto simp: work_loop_def split: bind_splits if_splits option.splits)
      from commit_root_result[OF c] \<open>next_unit_of_work s1 = None\<close>
      have "next_unit_of_work s2 = None" by simp
      with assms r \<open>next_unit_of_work s1 = None\<close> False c
      have "s' = (case render_callback s2 of None \<Rightarrow> s2 | Some cb \<Rightarrow> s2\<lparr>called := called s2 @ [cb]\<rparr>)"
        by (auto simp: work_loop_def split: bind_splits if_splits option.splits)
      with r \<open>next_unit_of_work s1 = None\<close> False c show ?thesis by (rule commit)
    qed
  qed
qed

lemma request_idle_work_None:
  "request_idle_work w None s =
     s\<lparr>qt_timer := Some \<lparr>slot = Some (clock w (ticks s) + 1000000 * 16), running = True\<rparr>,
       ticks := Suc (ticks s)\<rparr>"
  by (simp add: request_idle_work_def)

lemma callback_fields:
  "next_unit_of_work (case render_callback s2 of None \<Rightarrow> s2 | Some cb \<Rightarrow> s2\<lparr>called := called s2 @ [cb]\<rparr>) = next_unit_of_work s2"
  "wip_root (case render_callback s2 of None \<Rightarrow> s2 | Some cb \<Rightarrow> s2\<lparr>called := called s2 @ [cb]\<rparr>) = wip_root s2"
  "current_root (case render_callback s2 of None \<Rightarrow> s2 | Some cb \<Rightarrow> s2\<lparr>called := called s2 @ [cb]\<rparr>) = current_root s2"
  "host_ops (case render_callback s2 of None \<Rightarrow> s2 | Some cb \<Rightarrow> s2\<lparr>called := called s2 @ [cb]\<rparr>) = host_ops s2"
  "ticks (case render_callback s2 of None \<Rightarrow> s2 | Some cb \<Rightarrow> s2\<lparr>called := called s2 @ [cb]\<rparr>) = ticks s2"
  "qt_timer (case render_callback s2 of None \<Rightarrow> s2 | Some cb \<Rightarrow> s2\<lparr>called := called s2 @ [cb]\<rparr>) = qt_timer s2"
  by (simp_all split: option.splits)


















section \<open>Keyed children are matched by position\<close>

text \<open>
  C1.  The claim: when keyed children \<open>[a, b, c]\<close> are rendered again as \<open>[c, a, b]\<close>,
  every child keeps the host object it had before.  \<open>reconcile_children\<close> does not
  look at keys: it pairs the i-th element with the i-th old fiber.  In the run below
  (\<open>Items\<close> of \<open>test_reconcile_by_key\<close>, rendered with \<open>abc\<close> and then with \<open>cab\<close>) the
  host object \<open>Created 1\<close>, made for the child with key and content \<open>a\<close>, is given the
  content \<open>c\<close> by the second commit, and likewise for the other two: the child with key
  \<open>c\<close> ends on the host object that belonged to \<open>a\<close>.
\<close>

theorem keyed_reorder_is_positional:
  "map_option host_ops
     (run_last example_world
        [Render (items_element abc) (Container 0) None, TimerTimeout,
         Render (items_element cab) (Container 0) None, TimerTimeout]) =
   Some
    [CreateElement (Created 0) ''items'',
     SetAttribute (Created 0) ''items'' (PList [PStr ''a'', PStr ''b'', PStr ''c'']),
     CreateElement (Created 1) ''item'', SetAttribute (Created 1) ''content'' (PStr ''a''),
     CreateElement (Created 2) ''item'', SetAttribute (Created 2) ''content'' (PStr ''b''),
     CreateElement (Created 3) ''item'', SetAttribute (Created 3) ''content'' (PStr ''c''),
     Add (Container 0) (Created 0), Add (Created 0) (Created 1),
     Add (Created 0) (Created 2), Add (Created 0) (Created 3),
     SetAttribute (Created 0) ''items'' (PList [PStr ''c'', PStr ''a'', PStr ''b'']),
     SetAttribute (Created 1) ''content'' (PStr ''c''),
     SetAttribute (Created 2) ''content'' (PStr ''a''),
     SetAttribute (Created 3) ''content'' (PStr ''b'')]"
  by code_simp

section \<open>Listeners that disappear from the props\<close>

text \<open>
  C2.  The claim: a listener that is in the previous props and not in the next props
  is removed from the host object, before anything else is applied.  The first loop
  of \<open>update_dom\<close> skips every name that is not in the next props, so that for a
  listener \<open>onClick\<close> and a property \<open>x\<close> that both disappear, only the property is
  cleared and no \<open>remove_event_handler\<close> call is made.
\<close>

theorem dropped_listener_is_not_removed:
  "update_dom (Created 0) [(''onClick'', PFun 1), (''x'', PInt 1)] [] =
     [ClearAttribute (Created 0) ''x'' (PInt 1)]"
  by code_simp

section \<open>Effects of old fibers applied during the deletions\<close>

text \<open>
  C6.  The claim: all removals of a commit come first, so that no later call of the
  commit refers to a host object that a deletion has vacated.  \<open>commit_work\<close> on a
  deleted fiber goes on into the child and the sibling of that old fiber and applies
  the effect tags they still carry from the commit before.  First run: a \<open>div\<close> with a
  \<open>span\<close> is replaced by a \<open>p\<close>; after \<open>Created 0\<close> (the \<open>div\<close>) is removed, \<open>Created 1\<close>
  (the \<open>span\<close>) is added under it.  Second run: a function component is replaced by a
  \<open>p\<close>; the host object of the component is removed and at once added to the
  container again.
\<close>

theorem stale_effects_after_deletion:
  "map_option host_ops
     (run_last example_world
        [Render div_span (Container 0) None, TimerTimeout,
         Render par_element (Container 0) None, TimerTimeout]) =
   Some
    [CreateElement (Created 0) ''div'', CreateElement (Created 1) ''span'',
     Add (Container 0) (Created 0), Add (Created 0) (Created 1),
     CreateElement (Created 2) ''p'',
     Remove (Container 0) (Created 0), Add (Created 0) (Created 1),
     Add (Container 0) (Created 2)]
   \<and>
   map_option host_ops
     (run_last example_world
        [Render counter_element (Container 0) None, TimerTimeout,
         Render par_element (Container 0) None, TimerTimeout]) =
   Some
    [CreateElement (Created 0) ''counter'', SetAttribute (Created 0) ''count'' (PInt 0),
     Add (Container 0) (Created 0),
     CreateElement (Created 1) ''p'',
     Remove (Container 0) (Created 0), Add (Container 0) (Created 0),
     Add (Container 0) (Created 1)]"
  by code_simp

section \<open>A generation is committed only when it is complete\<close>




section \<open>Time slices\<close>

text \<open>
  C8.  \<open>render\<close> called without a deadline arms the timer with a deadline 16 ms after
  the reading of the clock it takes.  In the loop of \<open>work_loop\<close> a unit of work takes no
  reading of the clock; the one reading is taken after the unit, and the loop goes on
  exactly when that reading leaves at least 1 ms before the deadline.  A slice that
  ends with a unit of work remaining has performed \<open>k + 1\<close> units, the first \<open>k\<close>
  readings left at least 1 ms, the last one less, and the slice has rescheduled itself
  through \<open>request_idle_work\<close> with a deadline 16 ms after a new reading.  A slice that
  ends with no unit remaining never stopped while 1 ms was left and does not touch
  the timer.
\<close>

theorem work_loop_time_slicing:
  "qt_timer (render w element container callback s) =
     Some \<lparr>slot = Some (clock w (ticks s) + 16 * 1000000), running = True\<rparr>
   \<and> (next_unit_of_work s = Some a \<and> perform_unit_of_work w a s = Some (n, s1) \<longrightarrow>
        ticks s1 = ticks s \<and>
        run_units w d s =
          (if d - clock w (ticks s) < 1000000
           then Some (s1\<lparr>next_unit_of_work := n, ticks := Suc (ticks s)\<rparr>)
           else run_units w d (s1\<lparr>next_unit_of_work := n, ticks := Suc (ticks s)\<rparr>)))
   \<and> (work_loop w d s = Some s' \<and> next_unit_of_work s' \<noteq> None \<longrightarrow>
        (\<exists>k. ticks s' = ticks s + k + 2 \<and>
             (\<forall>j<k. 1000000 \<le> d - clock w (ticks s + j)) \<and>
             d - clock w (ticks s + k) < 1000000 \<and>
             qt_timer s' =
               Some \<lparr>slot = Some (clock w (ticks s + k + 1) + 16 * 1000000), running = True\<rparr>))
   \<and> (work_loop w d s = Some s' \<and> next_unit_of_work s' = None \<longrightarrow>
        (\<forall>j. ticks s \<le> j \<and> Suc j < ticks s' \<longrightarrow> 1000000 \<le> d - clock w j) \<and>
        qt_timer s' = qt_timer s)"
proof (intro conjI impI)
  show "qt_timer (render w element container callback s) =
     Some \<lparr>slot = Some (clock w (ticks s) + 16 * 1000000), running = True\<rparr>"
    by (simp add: render_def Let_def request_idle_work_None)
next
  assume a: "next_unit_of_work s = Some a \<and> perform_unit_of_work w a s = Some (n, s1)"
  then show "ticks s1 = ticks s"
    using perform_unit_of_work_frame[of w a s n s1] by (simp add: render_frame_def)
  with a show "run_units w d s =
          (if d - clock w (ticks s) < 1000000
           then Some (s1\<lparr>next_unit_of_work := n, ticks := Suc (ticks s)\<rparr>)
           else run_units w d (s1\<lparr>next_unit_of_work := n, ticks := Suc (ticks s)\<rparr>))"
    by (subst run_units.simps) simp
next
  assume a: "work_loop w d s = Some s' \<and> next_unit_of_work s' \<noteq> None"
  then have wl: "work_loop w d s = Some s'" and nu: "next_unit_of_work s' \<noteq> None" by simp_all
  from wl show "\<exists>k. ticks s' = ticks s + k + 2 \<and>
             (\<forall>j<k. 1000000 \<le> d - clock w (ticks s + j)) \<and>
             d - clock w (ticks s + k) < 1000000 \<and>
             qt_timer s' =
               Some \<lparr>slot = Some (clock w (ticks s + k + 1) + 16 * 1000000), running = True\<rparr>"
  proof (cases rule: work_loop_cases)
    case (yield s1)
    from run_units_budget[OF yield(1)] yield(2)
    have b: "ticks s < ticks s1" "d - clock w (ticks s1 - 1) < 1000000"
      "\<And>j. ticks s \<le> j \<Longrightarrow> Suc j < ticks s1 \<Longrightarrow> 1000000 \<le> d - clock w j"
      by (simp_all add: slice_budget_def)
    define k where "k = ticks s1 - ticks s - 1"
    with b(1) have t: "ticks s1 = ticks s + k + 1" by simp
    show ?thesis
    proof (intro exI[of _ k] conjI allI impI)
      show "ticks s' = ticks s + k + 2" using yield(3) t by (simp add: request_idle_work_None)
      show "d - clock w (ticks s + k) < 1000000" using b(2) t by simp
      show "qt_timer s' = Some \<lparr>slot = Some (clock w (ticks s + k + 1) + 16 * 1000000), running = True\<rparr>"
        using yield(3) t by (simp add: request_idle_work_None)
    next
      fix j assume "j < k"
      with b(3)[of "ticks s + j"] t show "1000000 \<le> d - clock w (ticks s + j)" by simp
    qed
  next
    case (commit s1 s2)
    from commit_root_result[OF commit(4)] commit(2,5) nu show ?thesis
      by (simp add: callback_fields)
  next
    case (idle s1)
    with nu show ?thesis by (simp add: callback_fields)
  qed
next
  assume a: "work_loop w d s = Some s' \<and> next_unit_of_work s' = None"
  then have wl: "work_loop w d s = Some s'" and nu: "next_unit_of_work s' = None" by simp_all
  from wl have "(\<forall>j. ticks s \<le> j \<and> Suc j < ticks s' \<longrightarrow> 1000000 \<le> d - clock w j) \<and>
        qt_timer s' = qt_timer s"
  proof (cases rule: work_loop_cases)
    case (yield s1)
    with nu show ?thesis by (simp add: request_idle_work_None)
  next
    case (commit s1 s2)
    from commit_root_result[OF commit(4)] commit(5)
    have "ticks s' = ticks s1" "qt_timer s' = qt_timer s1" by (simp_all add: callback_fields)
    with run_units_budget[OF commit(1)] run_units_frame[OF commit(1)] show ?thesis
      by (simp add: slice_budget_def slice_frame_def)
  next
    case (idle s1)
    then have "ticks s' = ticks s1" "qt_timer s' = qt_timer s1" by (simp_all add: callback_fields)
    with run_units_budget[OF idle(1)] run_units_frame[OF idle(1)] show ?thesis
      by (simp add: slice_budget_def slice_frame_def)
  qed
  then show "\<forall>j. ticks s \<le> j \<and> Suc j < ticks s' \<longrightarrow> 1000000 \<le> d - clock w j"
    and "qt_timer s' = qt_timer s" by simp_all
qed

theorem work_loop_time_slicing_witness:
  "map_option (\<lambda>r. ticks (snd r)) (perform_unit_of_work slow_world 0 slow_start) = Some (ticks slow_start)
   \<and> map_option next_unit_of_work (work_loop slow_world 16000000 slow_start) = Some (Some 1)
   \<and> map_option ticks (work_loop slow_world 16000000 slow_start) = Some 3
   \<and> map_option qt_timer (work_loop slow_world 16000000 slow_start) =
       Some (Some \<lparr>slot = Some 56000000, running = True\<rparr>)
   \<and> map_option next_unit_of_work (work_loop example_world 16000000 fast_start) = Some None
   \<and> map_option qt_timer (work_loop example_world 16000000 fast_start) = Some (qt_timer fast_start)"
proof -
  have "perform_unit_of_work slow_world 0 slow_start \<noteq> None" by code_simp
  then obtain n s1 where p: "perform_unit_of_work slow_world 0 slow_start = Some (n, s1)" by auto
  have nu0: "next_unit_of_work slow_start = Some 0" by code_simp
  from work_loop_time_slicing[where w = slow_world and s = slow_start and a = 0 and n = n
      and ?s1.0 = s1, THEN conjunct2, THEN conjunct1] nu0 p
  have c1: "ticks s1 = ticks slow_start" by blast
  have "work_loop slow_world 16000000 slow_start \<noteq> None" by code_simp
  then obtain s' where wl: "work_loop slow_world 16000000 slow_start = Some s'" by auto
  have "map_option next_unit_of_work (work_loop slow_world 16000000 slow_start) = Some (Some 1)"
    by code_simp
  with wl have nu: "next_unit_of_work s' = Some 1" by simp
  have "map_option ticks (work_loop slow_world 16000000 slow_start) = Some 3" by code_simp
  with wl have t: "ticks s' = 3" by simp
  have t0: "ticks slow_start = 1" by code_simp
  from work_loop_time_slicing[where w = slow_world and s = slow_start and d = 16000000
      and s' = s', THEN conjunct2, THEN conjunct2, THEN conjunct1] wl nu
  obtain k where k: "ticks s' = ticks slow_start + k + 2"
    "qt_timer s' = Some \<lparr>slot = Some (clock slow_world (ticks slow_start + k + 1) + 16 * 1000000), running = True\<rparr>"
    by blast
  from k(1) t t0 have "k = 0" by simp
  with k(2) t0 have q: "qt_timer s' = Some \<lparr>slot = Some 56000000, running = True\<rparr>"
    by (simp add: slow_world_def example_world_def)
  have "work_loop example_world 16000000 fast_start \<noteq> None" by code_simp
  then obtain s'' where wl2: "work_loop example_world 16000000 fast_start = Some s''" by auto
  have "map_option next_unit_of_work (work_loop example_world 16000000 fast_start) = Some None"
    by code_simp
  with wl2 have nu2: "next_unit_of_work s'' = None" by simp
  from work_loop_time_slicing[where w = example_world and s = fast_start and d = 16000000
      and s' = s'', THEN conjunct2, THEN conjunct2, THEN conjunct2] wl2 nu2
  have q2: "qt_timer s'' = qt_timer fast_start" by blast
  from p c1 wl nu t q wl2 nu2 q2 show ?thesis by simp
qed

section \<open>The props object of create_element\<close>

text \<open>
  C10, as it is written: the props of the returned node is the very dictionary the
  caller passed.  When \<open>key\<close> is the only entry, the dictionary is empty after the
  \<open>pop\<close>, \<open>props or {}\<close> takes the new dictionary, and the node's props is a different
  object (address 1) from the caller's (address 0), which has been emptied.
\<close>

theorem create_element_only_key:
  "create_element [[(''key'', PStr ''a'')]] (Host ''item'') (Some 0) [] =
     Some (VNode (Host ''item'') 1 [] (PStr ''a''), [[], []])"
  by code_simp

lemma has_key_nonempty: "has_key d k \<Longrightarrow> d \<noteq> []"
  by (auto simp: has_key_def)

text \<open>
  C10, amended.  With a dictionary that holds \<open>key\<close>, \<open>create_element\<close> removes the
  entry from the caller's dictionary in place and makes its value the key of the
  node; the props of the node is the caller's dictionary when entries remain, and a
  new empty dictionary when \<open>key\<close> was the only entry.  A non-empty dictionary without
  \<open>key\<close> is taken as it is, with key \<open>None\<close>.  With \<open>None\<close> or an empty dictionary the
  props is a new empty dictionary and the key is \<open>None\<close>.  The children are the
  children passed.
\<close>

theorem create_element_props:
  assumes "p < length store"
  shows
    "(has_key (store ! p) ''key'' \<longrightarrow>
        (\<exists>v store'. create_element store ty (Some p) cs = Some (v, store') \<and>
           vtype v = ty \<and> vchildren v = cs \<and> vkey v = dict_get (store ! p) ''key'' \<and>
           store' ! p = dict_pop (store ! p) ''key'' \<and>
           (if dict_pop (store ! p) ''key'' \<noteq> []
            then vprops v = p \<and> store' = store[p := dict_pop (store ! p) ''key'']
            else vprops v = length store \<and>
                 store' = store[p := dict_pop (store ! p) ''key''] @ [[]])))
     \<and> (store ! p \<noteq> [] \<and> \<not> has_key (store ! p) ''key'' \<longrightarrow>
          create_element store ty (Some p) cs = Some (VNode ty p cs PNone, store))
     \<and> (store ! p = [] \<longrightarrow>
          create_element store ty (Some p) cs = Some (VNode ty (length store) cs PNone, store @ [[]]))
     \<and> create_element store ty None cs = Some (VNode ty (length store) cs PNone, store @ [[]])"
proof (intro conjI impI)
  assume k: "has_key (store ! p) ''key''"
  then have ne: "store ! p \<noteq> []" by (rule has_key_nonempty)
  show "\<exists>v store'. create_element store ty (Some p) cs = Some (v, store') \<and>
           vtype v = ty \<and> vchildren v = cs \<and> vkey v = dict_get (store ! p) ''key'' \<and>
           store' ! p = dict_pop (store ! p) ''key'' \<and>
           (if dict_pop (store ! p) ''key'' \<noteq> []
            then vprops v = p \<and> store' = store[p := dict_pop (store ! p) ''key'']
            else vprops v = length store \<and>
                 store' = store[p := dict_pop (store ! p) ''key''] @ [[]])"
  proof (cases "dict_pop (store ! p) ''key'' = []")
    case True
    with assms k ne show ?thesis
      by (simp add: create_element_def Let_def nth_append)
  next
    case False
    with assms k ne show ?thesis
      by (simp add: create_element_def Let_def)
  qed
next
  assume "store ! p \<noteq> [] \<and> \<not> has_key (store ! p) ''key''"
  with assms show "create_element store ty (Some p) cs = Some (VNode ty p cs PNone, store)"
    by (simp add: create_element_def Let_def)
next
  assume "store ! p = []"
  with assms show "create_element store ty (Some p) cs = Some (VNode ty (length store) cs PNone, store @ [[]])"
    by (simp add: create_element_def Let_def)
next
  show "create_element store ty None cs = Some (VNode ty (length store) cs PNone, store @ [[]])"
    by (simp add: create_element_def)
qed

theorem create_element_props_witness:
  "create_element [[(''key'', PStr ''a''), (''content'', PStr ''a'')]] (Host ''item'') (Some 0) [] =
     Some (VNode (Host ''item'') 0 [] (PStr ''a''), [[(''content'', PStr ''a'')]])"
proof -
  let ?store = "[[(''key'', PStr ''a''), (''content'', PStr ''a'')]]"
  have p: "(0::nat) < length ?store" by simp
  have k: "has_key (?store ! 0) ''key''" by (simp add: has_key_def)
  from create_element_props[OF p, of "Host ''item''" "[]", THEN conjunct1] k
  obtain v store' where r: "create_element ?store (Host ''item'') (Some 0) [] = Some (v, store')"
    and v: "vtype v = Host ''item''" "vchildren v = []" "vkey v = dict_get (?store ! 0) ''key''"
    and i: "if dict_pop (?store ! 0) ''key'' \<noteq> []
            then vprops v = 0 \<and> store' = ?store[0 := dict_pop (?store ! 0) ''key'']
            else vprops v = length ?store \<and> store' = ?store[0 := dict_pop (?store ! 0) ''key''] @ [[]]"
    by blast
  from i have "vprops v = 0" "store' = [[(''content'', PStr ''a'')]]"
    by (simp_all add: dict_pop_def)
  with r v show ?thesis
    by (cases v) (simp add: dict_get_def)
qed

section \<open>The value use_state returns\<close>

text \<open>
  C9, as it is written: without a hook of the alternate at the cursor, the value is
  seeded from \<open>initial\<close>.  The alternate below has one hook; at cursor 0 that hook is
  taken, and at cursor 1 the subscript \<open>hooks[1]\<close> raises: \<open>use_state\<close> returns nothing.
\<close>

theorem use_state_cursor_beyond_hooks:
  "map_option fst (use_state example_world (PInt 0) (second_render_state 0)) = Some (PInt 5)
   \<and> use_state example_world (PInt 0) (second_render_state 1) = None"
  by code_simp

text \<open>
  C9, amended.  In a call of \<open>use_state(initial)\<close> during a component render: if the
  alternate fiber has a hook at the cursor, the value returned is the state of that
  hook with its queued updates applied in order, whatever \<open>initial\<close> is; if there is no
  alternate, or the alternate has no hooks (none at all, or an empty list), the value
  is \<open>reactive(initial)\<close>.  In both cases the cursor advances by one.
\<close>

theorem use_state_value:
  assumes "wip_fiber s = Some a" and "fiber_at (fibers s) a = Some f"
    and "hook_index s = Some i" and "hooks f = Some hs"
  shows
    "(alternate f = Some b \<and> fiber_at (fibers s) b = Some af \<and> hooks af = Some ohs \<and> i < length ohs \<longrightarrow>
        (\<exists>s'. use_state w initial s =
                 Some (fold (\<lambda>action v. action v) (queue (ohs ! i)) (state (ohs ! i)), s') \<and>
              hook_index s' = Some (i + 1)))
     \<and> (alternate f = None \<or>
         (alternate f = Some b \<and> fiber_at (fibers s) b = Some af \<and>
          (hooks af = None \<or> hooks af = Some [])) \<longrightarrow>
        (\<exists>s'. use_state w initial s = Some (reactive w initial, s') \<and>
              hook_index s' = Some (i + 1)))"
proof (intro conjI impI)
  assume h: "alternate f = Some b \<and> fiber_at (fibers s) b = Some af \<and> hooks af = Some ohs \<and> i < length ohs"
  then have "old_hook_of (fibers s) f i = Some (Some (ohs ! i))"
    by (auto simp: old_hook_of_def)
  with assms show "\<exists>s'. use_state w initial s =
                 Some (fold (\<lambda>action v. action v) (queue (ohs ! i)) (state (ohs ! i)), s') \<and>
              hook_index s' = Some (i + 1)"
    by (simp add: use_state_def Let_def)
next
  assume h: "alternate f = None \<or>
         (alternate f = Some b \<and> fiber_at (fibers s) b = Some af \<and>
          (hooks af = None \<or> hooks af = Some []))"
  then have "old_hook_of (fibers s) f i = Some None"
    by (auto simp: old_hook_of_def)
  with assms show "\<exists>s'. use_state w initial s = Some (reactive w initial, s') \<and>
              hook_index s' = Some (i + 1)"
    by (simp add: use_state_def Let_def)
qed

theorem use_state_value_witness:
  "map_option hook_index (map_option snd (use_state example_world (PInt 0) (second_render_state 0))) = Some (Some 1)
   \<and> map_option fst (use_state example_world (PInt 9) first_render_state) = Some (PInt 9)"
proof -
  let ?s = "second_render_state 0"
  let ?f = "(update_fiber 0 0 first_render_fiber counter_element)\<lparr>hooks := Some []\<rparr>"
  have a: "wip_fiber ?s = Some 1" "fiber_at (fibers ?s) 1 = Some ?f" "hook_index ?s = Some 0"
    "hooks ?f = Some []"
    by (simp_all add: second_render_state_def fiber_at_def)
  have b: "alternate ?f = Some 0 \<and> fiber_at (fibers ?s) 0 = Some first_render_fiber \<and>
     hooks first_render_fiber = Some [\<lparr>state = PInt 5, queue = [], watcher = 0\<rparr>] \<and>
     0 < length [\<lparr>state = PInt 5, queue = [], watcher = 0\<rparr>]"
    by (simp add: second_render_state_def fiber_at_def update_fiber_def first_render_fiber_def)
  from use_state_value[OF a, THEN conjunct1, of 0 first_render_fiber
      "[\<lparr>state = PInt 5, queue = [], watcher = 0\<rparr>]" example_world "PInt 0"] b
  obtain s' where r: "use_state example_world (PInt 0) ?s = Some (PInt 5, s')"
    and h: "hook_index s' = Some (0 + 1)"
    by auto
  let ?t = first_render_state
  let ?g = "(placement_fiber 0 counter_element)\<lparr>hooks := Some []\<rparr>"
  have c: "wip_fiber ?t = Some 0" "fiber_at (fibers ?t) 0 = Some ?g" "hook_index ?t = Some 0"
    "hooks ?g = Some []"
    by (simp_all add: first_render_state_def fiber_at_def)
  have d: "alternate ?g = None" by (simp add: placement_fiber_def)
  from use_state_value[OF c, THEN conjunct2, of _ _ example_world "PInt 9"] d
  obtain t' where r2: "use_state example_world (PInt 9) ?t = Some (reactive example_world (PInt 9), t')"
    by blast
  from r h r2 show ?thesis by (simp add: example_world_def)
qed

section \<open>Watchers and deleted fibers\<close>

text \<open>
  C3, as it is written: when the fiber that owns a hook is deleted and the deletion
  is committed, the watcher of the hook is cancelled.  In the run below a function
  component with one hook is rendered and committed, and then replaced by a \<open>p\<close>.
  After the second commit the component fiber (address 1) is tagged \<open>DELETION\<close>, its
  hook still holds subscription 0, and subscription 0 is still active.
\<close>

theorem watcher_survives_deletion:
  "map_option (map effect_tag \<circ> fibers)
     (run_last example_world
        [Render counter_element (Container 0) None, TimerTimeout,
         Render par_element (Container 0) None, TimerTimeout]) =
     Some [None, Some DELETION, Some PLACEMENT, None, Some PLACEMENT]
   \<and> map_option (map (map_option (map watcher) \<circ> hooks) \<circ> fibers)
     (run_last example_world
        [Render counter_element (Container 0) None, TimerTimeout,
         Render par_element (Container 0) None, TimerTimeout]) =
     Some [None, Some [0], None, None, None]
   \<and> map_option subscriptions
     (run_last example_world
        [Render counter_element (Container 0) None, TimerTimeout,
         Render par_element (Container 0) None, TimerTimeout]) =
     Some [Active]"
  by code_simp

lemma use_state_SomeE:
  assumes "use_state w initial s = Some (v, s')"
  obtains a f i hs where "wip_fiber s = Some a" "fiber_at (fibers s) a = Some f"
    "hook_index s = Some i" "hooks f = Some hs"
    "s' = s\<lparr>subscriptions := subscriptions s @ [Active],
              fibers := (fibers s)[a := f\<lparr>hooks := Some (hs @ [\<lparr>state = v, queue = [], watcher = length (subscriptions s)\<rparr>])\<rparr>],
              hook_index := Some (i + 1)\<rparr>"
  using assms unfolding use_state_def Let_def
  by (auto split: bind_splits)

text \<open>
  C3, amended.  Every call of \<open>use_state\<close> that returns registers exactly one new
  subscription, which is active and is the watcher of the hook the call appends to
  the fiber being rendered.  A commit, deletions included, leaves every subscription
  as it is.
\<close>

theorem one_watcher_per_hook_none_cancelled:
  "(use_state w initial s = Some (v, s') \<longrightarrow>
      subscriptions s' = subscriptions s @ [Active] \<and>
      (\<exists>a f hs. wip_fiber s = Some a \<and> fiber_at (fibers s') a = Some f \<and>
         hooks f = Some (hs @ [\<lparr>state = v, queue = [], watcher = length (subscriptions s)\<rparr>])))
   \<and> (commit_root s = Some s'' \<longrightarrow> subscriptions s'' = subscriptions s)"
proof (intro conjI impI)
  assume u: "use_state w initial s = Some (v, s')"
  then obtain a f i hs where a: "wip_fiber s = Some a" and f: "fiber_at (fibers s) a = Some f"
    and s': "s' = s\<lparr>subscriptions := subscriptions s @ [Active],
              fibers := (fibers s)[a := f\<lparr>hooks := Some (hs @ [\<lparr>state = v, queue = [], watcher = length (subscriptions s)\<rparr>])\<rparr>],
              hook_index := Some (i + 1)\<rparr>"
    by (rule use_state_SomeE)
  from s' show "subscriptions s' = subscriptions s @ [Active]" by simp
  from f have "a < length (fibers s)" by (simp add: fiber_at_def split: if_splits)
  with s' have "fiber_at (fibers s') a =
      Some (f\<lparr>hooks := Some (hs @ [\<lparr>state = v, queue = [], watcher = length (subscriptions s)\<rparr>])\<rparr>)"
    by (simp add: fiber_at_def)
  with a show "\<exists>a f hs. wip_fiber s = Some a \<and> fiber_at (fibers s') a = Some f \<and>
         hooks f = Some (hs @ [\<lparr>state = v, queue = [], watcher = length (subscriptions s)\<rparr>])"
    by auto
next
  assume "commit_root s = Some s''"
  from commit_root_result[OF this] show "subscriptions s'' = subscriptions s" by simp
qed

theorem one_watcher_per_hook_none_cancelled_witness:
  "map_option (subscriptions \<circ> snd) (use_state example_world (PInt 0) first_render_state) = Some [Active]
   \<and> map_option deletions before_deletion_commit = Some (Some [1])
   \<and> map_option subscriptions (Option.bind before_deletion_commit commit_root) = Some [Active]"
proof -
  have "use_state example_world (PInt 0) first_render_state \<noteq> None" by code_simp
  then obtain v s' where u: "use_state example_world (PInt 0) first_render_state = Some (v, s')"
    by auto
  from one_watcher_per_hook_none_cancelled[where w = example_world and s = first_render_state
      and initial = "PInt 0" and v = v and s' = s', THEN conjunct1] u
  have 1: "subscriptions s' = subscriptions first_render_state @ [Active]" by blast
  have 0: "subscriptions first_render_state = []" by (simp add: first_render_state_def init_pygui_def)
  have "Option.bind before_deletion_commit commit_root \<noteq> None" by code_simp
  then obtain s s'' where b: "before_deletion_commit = Some s" and c: "commit_root s = Some s''"
    by (auto simp: bind_eq_Some_conv)
  from one_watcher_per_hook_none_cancelled[where s = s and s'' = s'', THEN conjunct2] c
  have 2: "subscriptions s'' = subscriptions s" by blast
  have "map_option subscriptions before_deletion_commit = Some [Active]" by code_simp
  then have 3: "subscriptions s = [Active]" unfolding b by simp
  have 4: "map_option deletions before_deletion_commit = Some (Some [1])" by code_simp
  have 5: "map_option (subscriptions \<circ> snd) (use_state example_world (PInt 0) first_render_state) = Some [Active]"
    using 1 0 unfolding u by simp
  have 6: "map_option subscriptions (Option.bind before_deletion_commit commit_root) = Some [Active]"
    using c 2 3 unfolding b by simp
  from 4 5 6 show ?thesis by blast
qed

section \<open>The successor of a unit of work\<close>

lemma walk_up_None: "walk_up h None = Some None"
  by (subst walk_up.simps) simp

lemma walk_up_Some:
  "fiber_at h a = Some f \<Longrightarrow>
   walk_up h (Some a) = (case sibling f of Some sb \<Rightarrow> Some (Some sb) | None \<Rightarrow> walk_up h (parent f))"
  by (subst walk_up.simps) simp

lemma successive_append:
  "successive nxt as (Some b) \<Longrightarrow> successive nxt (b # bs) lst \<Longrightarrow> successive nxt (as @ b # bs) lst"
  by (induction nxt as "Some b" rule: successive.induct) simp_all

lemma forest_preorder_Cons:
  "\<exists>bs. concat (map preorder (t # ts)) = root_of t # bs"
  by (cases t) simp

lemma tree_forest_successive:
  "is_tree h par sib t \<Longrightarrow> walk_up h (Some (root_of t)) = Some c \<Longrightarrow>
     successive (next_unit h) (preorder t) c"
  "is_forest h p ts \<Longrightarrow> walk_up h (Some p) = Some c \<Longrightarrow>
     successive (next_unit h) (concat (map preorder ts)) c"
proof (induction h par sib t and h p ts arbitrary: c and c rule: is_tree_is_forest.induct)
  case (1 h par sib a ts)
  from "1.prems"(1) obtain f where f: "fiber_at h a = Some f" "parent f = par" "sibling f = sib"
    "child f = first_root ts" "is_forest h a ts"
    by (auto split: option.splits)
  show ?case
  proof (cases ts)
    case Nil
    with f "1.prems"(2) show ?thesis by (simp add: next_unit_def)
  next
    case (Cons u us)
    obtain bs where bs: "concat (map preorder (u # us)) = root_of u # bs"
      using forest_preorder_Cons by blast
    from "1.prems"(2) have w: "walk_up h (Some a) = Some c" by simp
    from "1.IH"[OF f(1) f(5) w] Cons bs
    have "successive (next_unit h) (root_of u # bs) c" by simp
    moreover from f Cons have "next_unit h a = Some (Some (root_of u))"
      by (simp add: next_unit_def)
    ultimately show ?thesis using Cons bs by simp
  qed
next
  case (2 h p)
  then show ?case by simp
next
  case (3 h p t ts)
  from "3.prems"(1) have t: "is_tree h (Some p) (first_root ts) t" and ts: "is_forest h p ts"
    by simp_all
  obtain a us where ta: "t = FNode a us" by (cases t)
  with t obtain f where f: "fiber_at h a = Some f" "parent f = Some p" "sibling f = first_root ts"
    by (auto split: option.splits)
  show ?case
  proof (cases ts)
    case Nil
    with f ta "3.prems"(2) have "walk_up h (Some (root_of t)) = Some c"
      by (simp add: walk_up_Some)
    from "3.IH"(1)[OF t this] Nil show ?thesis by simp
  next
    case (Cons u us')
    with f ta have "walk_up h (Some (root_of t)) = Some (Some (root_of u))"
      by (simp add: walk_up_Some)
    from "3.IH"(1)[OF t this] have 1: "successive (next_unit h) (preorder t) (Some (root_of u))" .
    obtain bs where bs: "concat (map preorder (u # us')) = root_of u # bs"
      using forest_preorder_Cons by blast
    from "3.IH"(2)[OF ts "3.prems"(2)] Cons bs
    have 2: "successive (next_unit h) (root_of u # bs) c" by simp
    from successive_append[OF 1 2] Cons bs show ?thesis by simp
  qed
qed

text \<open>
  C7.  The successor that \<open>perform_unit_of_work\<close> returns for a fiber is its first
  child when it has one; without a child it is the sibling of the fiber when it has
  one, and otherwise what the walk finds from the parent upwards: the sibling of the
  nearest ancestor that has one, and \<open>None\<close> when the walk runs out of parents.  On a
  generation whose fibers are linked as a tree, following the successor from the root
  visits the fibers in pre-order, depth first and left to right, each once, and ends
  with \<open>None\<close> after the last one.
\<close>

theorem next_unit_is_preorder:
  "(fiber_at h a = Some f \<and> child f = Some c \<longrightarrow> next_unit h a = Some (Some c))
   \<and> (fiber_at h a = Some f \<and> child f = None \<and> sibling f = Some sb \<longrightarrow>
        next_unit h a = Some (Some sb))
   \<and> (fiber_at h a = Some f \<and> child f = None \<and> sibling f = None \<longrightarrow>
        next_unit h a = walk_up h (parent f))
   \<and> walk_up h None = Some None
   \<and> (is_tree h None None t \<longrightarrow> successive (next_unit h) (preorder t) None)"
proof (intro conjI impI)
  assume "is_tree h None None t"
  moreover from this have "walk_up h (Some (root_of t)) = Some None"
    by (cases t) (auto simp: walk_up_Some walk_up_None split: option.splits)
  ultimately show "successive (next_unit h) (preorder t) None"
    by (rule tree_forest_successive(1))
qed (auto simp: next_unit_def walk_up_Some walk_up_None)

theorem next_unit_is_preorder_witness:
  "map_option (\<lambda>s. is_tree (fibers s) None None items_tree)
     (run_last example_world [Render (items_element abc) (Container 0) None, TimerTimeout]) = Some True
   \<and> preorder items_tree = [0, 1, 2, 3, 4, 5]
   \<and> map_option (\<lambda>s. successive (next_unit (fibers s)) [0, 1, 2, 3, 4, 5] None)
     (run_last example_world [Render (items_element abc) (Container 0) None, TimerTimeout]) = Some True"
proof -
  let ?r = "run_last example_world [Render (items_element abc) (Container 0) None, TimerTimeout]"
  have t: "map_option (\<lambda>s. is_tree (fibers s) None None items_tree) ?r = Some True"
    by code_simp
  then obtain s where s: "?r = Some s" by blast
  from t have "is_tree (fibers s) None None items_tree" unfolding s by simp
  with next_unit_is_preorder[where h = "fibers s" and t = items_tree]
  have "successive (next_unit (fibers s)) (preorder items_tree) None" by blast
  moreover have p: "preorder items_tree = [0, 1, 2, 3, 4, 5]" by (simp add: items_tree_def)
  ultimately have "map_option (\<lambda>s. successive (next_unit (fibers s)) [0, 1, 2, 3, 4, 5] None) ?r = Some True"
    unfolding s by simp
  with t p show ?thesis by blast
qed

section \<open>Same type updates, another type replaces\<close>

lemma step_pair_eq:
  assumes "i < length els"
    and "fiber_at (fibers s) ofa = Some ofb" and "ftype ofb = Some t"
    and "deletions s = Some ds"
    and "wip < length (fibers s)"
    and "0 < i \<longrightarrow> (\<exists>ps. prev = Some ps \<and> ps < length (fibers s))"
  shows "reconcile_step wip els i (Some ofa) prev s =
     Some (sibling ofb, Some (length (fibers s)),
           s\<lparr>fibers := link_fiber wip i prev (Some (length (fibers s)))
                 (if vtype (els ! i) = t
                  then fibers s @ [update_fiber wip ofa ofb (els ! i)]
                  else tag_deleted ofa (fibers s @ [placement_fiber wip (els ! i)])),
             deletions := Some (if vtype (els ! i) = t then ds else ds @ [ofa])\<rparr>)"
proof -
  from assms(2) have o: "ofa < length (fibers s)" "fibers s ! ofa = ofb"
    by (simp_all add: fiber_at_def split: if_splits)
  have st: "same_type_of (Some ofb) (Some (els ! i)) = Some (vtype (els ! i) = t)"
    using assms(3) by (simp add: same_type_of_def)
  show ?thesis
  proof (cases "i = 0")
    case True
    with assms o st show ?thesis
      by (cases "vtype (els ! i) = t")
        (simp_all add: reconcile_step_def Let_def link_fiber_def tag_deleted_def)
  next
    case False
    with assms(6) obtain ps where "prev = Some ps" "ps < length (fibers s)" by auto
    with False assms o st show ?thesis
      by (cases "vtype (els ! i) = t")
        (simp_all add: reconcile_step_def Let_def link_fiber_def tag_deleted_def)
  qed
qed

lemma step_new_eq:
  assumes "i < length els"
    and "wip < length (fibers s)"
    and "0 < i \<longrightarrow> (\<exists>ps. prev = Some ps \<and> ps < length (fibers s))"
  shows "reconcile_step wip els i None prev s =
     Some (None, Some (length (fibers s)),
           s\<lparr>fibers := link_fiber wip i prev (Some (length (fibers s)))
                 (fibers s @ [placement_fiber wip (els ! i)])\<rparr>)"
proof (cases "i = 0")
  case True
  with assms show ?thesis
    by (simp add: reconcile_step_def Let_def link_fiber_def same_type_of_def)
next
  case False
  with assms(3) obtain ps where "prev = Some ps" "ps < length (fibers s)" by auto
  with False assms show ?thesis
    by (simp add: reconcile_step_def Let_def link_fiber_def same_type_of_def)
qed

lemma step_old_eq:
  assumes "\<not> i < length els"
    and "fiber_at (fibers s) ofa = Some ofb"
    and "deletions s = Some ds"
    and "wip < length (fibers s)"
  shows "reconcile_step wip els i (Some ofa) prev s =
     Some (sibling ofb, None,
           s\<lparr>fibers := (if i = 0 then link_fiber wip i prev None (tag_deleted ofa (fibers s))
                         else tag_deleted ofa (fibers s)),
             deletions := Some (ds @ [ofa])\<rparr>)"
proof -
  from assms(2) have o: "ofa < length (fibers s)" "fibers s ! ofa = ofb"
    by (simp_all add: fiber_at_def split: if_splits)
  with assms show ?thesis
    by (cases "i = 0")
      (simp_all add: reconcile_step_def Let_def link_fiber_def tag_deleted_def same_type_of_def)
qed

lemma nth_upd: "(h[b := x]) ! a = (if a = b \<and> b < length h then x else h ! a)"
  by (cases "b < length h") (auto simp: list_update_beyond)

lemma length_tag_deleted [simp]: "length (tag_deleted ofa h) = length h"
  by (simp add: tag_deleted_def)

lemma length_link_fiber [simp]: "length (link_fiber wip i prev new h) = length h"
  by (simp add: link_fiber_def split: option.splits)

lemma tag_deleted_fields:
  "ftype (tag_deleted ofa h ! a) = ftype (h ! a)"
  "props (tag_deleted ofa h ! a) = props (h ! a)"
  "children (tag_deleted ofa h ! a) = children (h ! a)"
  "fdom (tag_deleted ofa h ! a) = fdom (h ! a)"
  "parent (tag_deleted ofa h ! a) = parent (h ! a)"
  "alternate (tag_deleted ofa h ! a) = alternate (h ! a)"
  "hooks (tag_deleted ofa h ! a) = hooks (h ! a)"
  "sibling (tag_deleted ofa h ! a) = sibling (h ! a)"
  by (simp_all add: tag_deleted_def nth_upd)

lemma tag_deleted_tag:
  "ofa < length h \<Longrightarrow>
   effect_tag (tag_deleted ofa h ! a) = (if a = ofa then Some DELETION else effect_tag (h ! a))"
  by (auto simp: tag_deleted_def nth_upd)

lemma link_fiber_fields:
  "ftype (link_fiber wip i prev new h ! a) = ftype (h ! a)"
  "props (link_fiber wip i prev new h ! a) = props (h ! a)"
  "children (link_fiber wip i prev new h ! a) = children (h ! a)"
  "fdom (link_fiber wip i prev new h ! a) = fdom (h ! a)"
  "parent (link_fiber wip i prev new h ! a) = parent (h ! a)"
  "alternate (link_fiber wip i prev new h ! a) = alternate (h ! a)"
  "hooks (link_fiber wip i prev new h ! a) = hooks (h ! a)"
  "effect_tag (link_fiber wip i prev new h ! a) = effect_tag (h ! a)"
  by (simp_all add: link_fiber_def nth_upd split: option.splits)

lemma link_fiber_sibling:
  "i = 0 \<or> prev \<noteq> Some a \<Longrightarrow>
   sibling (link_fiber wip i prev new h ! a) = sibling (h ! a)"
  by (auto simp: link_fiber_def nth_upd split: option.splits)

lemma old_chain_valid:
  "old_chain h old os \<Longrightarrow> a \<in> set os \<Longrightarrow> a < length h"
  by (induction h old os rule: old_chain.induct)
    (auto simp: fiber_at_def split: option.splits if_splits)

lemma old_chain_keep:
  "old_chain h old os \<Longrightarrow> length h \<le> length h' \<Longrightarrow>
   (\<And>a. a \<in> set os \<Longrightarrow> ftype (h' ! a) = ftype (h ! a) \<and> sibling (h' ! a) = sibling (h ! a)) \<Longrightarrow>
   old_chain h' old os"
proof (induction h old os rule: old_chain.induct)
  case (2 h a b bs)
  from "2.prems"(1) obtain f where f: "a = b" "fiber_at h a = Some f" "ftype f \<noteq> None"
    "old_chain h (sibling f) bs"
    by (auto split: option.splits)
  from f(2) have v: "a < length h" "h ! a = f" by (auto simp: fiber_at_def split: if_splits)
  with "2.prems"(2) have v': "fiber_at h' a = Some (h' ! a)" by (simp add: fiber_at_def)
  from "2.prems"(3)[of a] f(1) v have e: "ftype (h' ! a) = ftype f" "sibling (h' ! a) = sibling f"
    by simp_all
  have "old_chain h' (sibling f) bs"
    by (rule "2.IH"[OF f(2) f(4) "2.prems"(2)]) (simp add: "2.prems"(3))
  with f v' e show ?case by simp
qed simp_all

lemma old_kept_refl: "old_kept os h h"
  by (simp add: old_kept_def)

lemma old_kept_step:
  assumes "old_kept os1 h h1" and "old_kept os2 h1 h2"
    and "set os1 \<subseteq> set os" and "set os2 \<subseteq> set os"
  shows "old_kept os h h2"
  unfolding old_kept_def
proof (intro conjI allI impI)
  from assms(1,2) show "length h \<le> length h2" by (simp add: old_kept_def)
next
  fix a assume a: "a < length h"
  with assms(1) have a1: "a < length h1" by (simp add: old_kept_def)
  from assms(1) a have k1: "ftype (h1 ! a) = ftype (h ! a)" "props (h1 ! a) = props (h ! a)"
    "children (h1 ! a) = children (h ! a)" "fdom (h1 ! a) = fdom (h ! a)"
    "parent (h1 ! a) = parent (h ! a)" "alternate (h1 ! a) = alternate (h ! a)"
    "hooks (h1 ! a) = hooks (h ! a)"
    "effect_tag (h1 ! a) = effect_tag (h ! a) \<or> a \<in> set os1 \<and> effect_tag (h1 ! a) = Some DELETION"
    by (simp_all add: old_kept_def)
  from assms(2) a1 have k2: "ftype (h2 ! a) = ftype (h1 ! a)" "props (h2 ! a) = props (h1 ! a)"
    "children (h2 ! a) = children (h1 ! a)" "fdom (h2 ! a) = fdom (h1 ! a)"
    "parent (h2 ! a) = parent (h1 ! a)" "alternate (h2 ! a) = alternate (h1 ! a)"
    "hooks (h2 ! a) = hooks (h1 ! a)"
    "effect_tag (h2 ! a) = effect_tag (h1 ! a) \<or> a \<in> set os2 \<and> effect_tag (h2 ! a) = Some DELETION"
    by (simp_all add: old_kept_def)
  from k1 k2 show "ftype (h2 ! a) = ftype (h ! a)" "props (h2 ! a) = props (h ! a)"
    "children (h2 ! a) = children (h ! a)" "fdom (h2 ! a) = fdom (h ! a)"
    "parent (h2 ! a) = parent (h ! a)" "alternate (h2 ! a) = alternate (h ! a)"
    "hooks (h2 ! a) = hooks (h ! a)"
    by simp_all
  from k1(8) k2(8) assms(3,4)
  show "effect_tag (h2 ! a) = effect_tag (h ! a) \<or> a \<in> set os \<and> effect_tag (h2 ! a) = Some DELETION"
    by auto
qed

lemma old_kept_deleted:
  "old_kept os h h' \<Longrightarrow> a < length h \<Longrightarrow> effect_tag (h ! a) = Some DELETION \<Longrightarrow>
   effect_tag (h' ! a) = Some DELETION"
  by (auto simp: old_kept_def)

lemma deleted_olds_subset: "set (deleted_olds h els i os) \<subseteq> set os"
  by (induction os arbitrary: i) auto

lemma deleted_olds_cong:
  "(\<And>a. a \<in> set os \<Longrightarrow> ftype (h1 ! a) = ftype (h ! a)) \<Longrightarrow>
   deleted_olds h1 els i os = deleted_olds h els i os"
  by (induction os arbitrary: i) auto

lemma deleted_olds_mem:
  "k < length os \<Longrightarrow>
   \<not> (i + k < length els \<and> ftype (h ! (os ! k)) = Some (vtype (els ! (i + k)))) \<Longrightarrow>
   os ! k \<in> set (deleted_olds h els i os)"
proof (induction os arbitrary: i k)
  case (Cons a as)
  show ?case
  proof (cases k)
    case 0
    with Cons.prems show ?thesis by auto
  next
    case (Suc j)
    with Cons.prems Cons.IH[of j "Suc i"] show ?thesis by auto
  qed
qed simp

lemma deleted_olds_not_mem:
  "distinct os \<Longrightarrow> k < length os \<Longrightarrow> i + k < length els \<Longrightarrow>
   ftype (h ! (os ! k)) = Some (vtype (els ! (i + k))) \<Longrightarrow>
   os ! k \<notin> set (deleted_olds h els i os)"
proof (induction os arbitrary: i k)
  case (Cons a as)
  show ?case
  proof (cases k)
    case 0
    with Cons.prems deleted_olds_subset[of h els "Suc i" as] show ?thesis by auto
  next
    case (Suc j)
    with Cons.prems Cons.IH[of j "Suc i"] show ?thesis by auto
  qed
qed simp

lemma deleted_olds_distinct: "distinct os \<Longrightarrow> distinct (deleted_olds h els i os)"
proof (induction os arbitrary: i)
  case (Cons a as)
  with deleted_olds_subset[of h els "Suc i" as] show ?case by auto
qed simp

lemma old_chain_fun: "old_chain h old os \<Longrightarrow> old_chain h old os' \<Longrightarrow> os = os'"
proof (induction h old os arbitrary: os' rule: old_chain.induct)
  case (2 h a b bs)
  then show ?case by (cases os') (auto split: option.splits)
next
  case (1 h)
  then show ?case by (cases os') simp_all
qed simp_all

lemma old_chain_suffix: "old_chain h old (xs @ a # ys) \<Longrightarrow> old_chain h (Some a) (a # ys)"
proof (induction xs arbitrary: old)
  case Nil
  then show ?case by (cases old) simp_all
next
  case (Cons x xs)
  from Cons.prems have "\<exists>f :: fiber. old_chain h (sibling f) (xs @ a # ys)"
    by (cases old) (auto split: option.splits)
  then obtain f :: fiber where "old_chain h (sibling f) (xs @ a # ys)" ..
  then show ?case by (rule Cons.IH)
qed

lemma old_chain_distinct: "old_chain h old os \<Longrightarrow> distinct os"
proof (induction h old os rule: old_chain.induct)
  case (2 h a b bs)
  from "2.prems" have "\<exists>f. fiber_at h a = Some f \<and> a = b \<and> old_chain h (sibling f) bs"
    by (auto split: option.splits)
  then obtain f where f: "fiber_at h a = Some f" and ab: "a = b"
    and c: "old_chain h (sibling f) bs"
    by blast
  have "b \<notin> set bs"
  proof
    assume "b \<in> set bs"
    then obtain xs ys where bs: "bs = xs @ b # ys" by (auto dest: split_list)
    from c have "old_chain h (Some b) (b # ys)" unfolding bs by (rule old_chain_suffix)
    from old_chain_fun[OF "2.prems"[unfolded ab] this] have "b # bs = b # ys" .
    with bs show False by simp
  qed
  moreover have "distinct bs" by (rule "2.IH"[OF f c])
  ultimately show ?case by simp
qed simp_all

lemma old_kept_append: "old_kept os h (h @ xs)"
  by (simp add: old_kept_def nth_append)

lemma old_kept_link: "old_kept os h h' \<Longrightarrow> old_kept os h (link_fiber wip i prev new h')"
  by (simp add: old_kept_def link_fiber_fields)

lemma old_kept_tag:
  "old_kept os h h' \<Longrightarrow> a \<in> set os \<Longrightarrow> a < length h' \<Longrightarrow> old_kept os h (tag_deleted a h')"
  by (simp add: old_kept_def tag_deleted_fields tag_deleted_tag)

lemma new_result_kept:
  assumes "new_result wip h h1 old e n" and "old_kept dl h1 h'" and "n < length h1" and "n \<notin> set dl"
  shows "new_result wip h h' old e n"
proof -
  from assms(2-4) have "ftype (h' ! n) = ftype (h1 ! n)" "props (h' ! n) = props (h1 ! n)"
    "children (h' ! n) = children (h1 ! n)" "fdom (h' ! n) = fdom (h1 ! n)"
    "parent (h' ! n) = parent (h1 ! n)" "alternate (h' ! n) = alternate (h1 ! n)"
    "hooks (h' ! n) = hooks (h1 ! n)" "effect_tag (h' ! n) = effect_tag (h1 ! n)"
    by (auto simp: old_kept_def)
  with assms(1) show ?thesis by (auto simp: new_result_def split: option.splits if_splits)
qed

lemma new_result_old:
  assumes "new_result wip h1 h' old e n"
    and "\<And>ofa. old = Some ofa \<Longrightarrow> ftype (h1 ! ofa) = ftype (h ! ofa) \<and> fdom (h1 ! ofa) = fdom (h ! ofa)"
  shows "new_result wip h h' old e n"
proof (cases old)
  case None
  with assms(1) show ?thesis by (simp add: new_result_def)
next
  case (Some ofa)
  from assms(2)[OF Some] have "ftype (h1 ! ofa) = ftype (h ! ofa)" "fdom (h1 ! ofa) = fdom (h ! ofa)"
    by simp_all
  with assms(1) Some show ?thesis by (simp add: new_result_def)
qed

lemma reconciled_new:
  assumes R: "reconciled wip els (Suc i) os' h1 (ds @ dl0) h' ds'"
    and i: "i < length els"
    and L: "length h1 = Suc (length h)"
    and K: "old_kept dl0 h h1"
    and os: "os = (case old of None \<Rightarrow> [] | Some a \<Rightarrow> [a]) @ os'" "old = None \<longrightarrow> os' = []"
    and dl: "deleted_olds h els i os = dl0 @ deleted_olds h els (Suc i) os'"
    and valid: "\<forall>a\<in>set os. a < length h"
    and N: "new_result wip h h1 old (els ! i) (length h)"
    and D: "\<forall>a\<in>set dl0. effect_tag (h1 ! a) = Some DELETION" "set dl0 \<subseteq> set os"
  shows "reconciled wip els i os h ds h' ds'"
proof -
  let ?dl1 = "deleted_olds h els (Suc i) os'"
  from os(1) have sub: "set os' \<subseteq> set os" by auto
  have kf: "ftype (h1 ! a) = ftype (h ! a) \<and> fdom (h1 ! a) = fdom (h ! a)" if "a \<in> set os" for a
    using K valid that by (simp add: old_kept_def)
  have cong: "deleted_olds h1 els (Suc i) os' = ?dl1"
    by (rule deleted_olds_cong) (use kf sub in auto)
  from R have r1: "length h' = length h1 + (length els - Suc i)"
    and r2: "old_kept ?dl1 h1 h'"
    and r3: "ds' = Some ((ds @ dl0) @ ?dl1)"
    and r4: "\<And>k. Suc i + k < length els \<Longrightarrow>
         new_result wip h1 h' (if k < length os' then Some (os' ! k) else None)
           (els ! (Suc i + k)) (length h1 + k)"
    and r5: "\<forall>a\<in>set ?dl1. effect_tag (h' ! a) = Some DELETION"
    unfolding reconciled_def cong by simp_all
  have s1: "set ?dl1 \<subseteq> set os" using deleted_olds_subset[of h els "Suc i" os'] sub by blast
  have c1: "length h' = length h + (length els - i)" using r1 L i by simp
  have c2: "old_kept (dl0 @ ?dl1) h h'" by (rule old_kept_step[OF K r2]) auto
  have c3: "ds' = Some (ds @ dl0 @ ?dl1)" using r3 by simp
  have c4: "new_result wip h h' (if k < length os then Some (os ! k) else None)
           (els ! (i + k)) (length h + k)" if k: "i + k < length els" for k
  proof (cases k)
    case 0
    have o: "(if 0 < length os then Some (os ! 0) else None) = old"
      using os by (cases old) simp_all
    have "length h \<notin> set ?dl1" using s1 valid by auto
    from new_result_kept[OF N r2 _ this] L have "new_result wip h h' old (els ! i) (length h)"
      by simp
    then have "new_result wip h h' (if 0 < length os then Some (os ! 0) else None)
           (els ! (i + 0)) (length h + 0)"
      unfolding o by simp
    then show ?thesis unfolding 0 .
  next
    case (Suc j)
    with k have "Suc i + j < length els" by simp
    from r4[OF this]
    have "new_result wip h1 h' (if j < length os' then Some (os' ! j) else None)
           (els ! (Suc i + j)) (length h1 + j)" .
    then have "new_result wip h h' (if j < length os' then Some (os' ! j) else None)
           (els ! (Suc i + j)) (length h1 + j)"
    proof (rule new_result_old)
      fix ofa assume "(if j < length os' then Some (os' ! j) else None) = Some ofa"
      then have "ofa \<in> set os'" by (auto split: if_splits)
      with sub kf show "ftype (h1 ! ofa) = ftype (h ! ofa) \<and> fdom (h1 ! ofa) = fdom (h ! ofa)"
        by blast
    qed
    moreover have o: "(if Suc j < length os then Some (os ! Suc j) else None) =
        (if j < length os' then Some (os' ! j) else None)"
      using os by (cases old) simp_all
    moreover have "Suc i + j = i + Suc j" "length h1 + j = length h + Suc j" using L by simp_all
    ultimately have "new_result wip h h' (if Suc j < length os then Some (os ! Suc j) else None)
           (els ! (i + Suc j)) (length h + Suc j)"
      by (simp only:)
    then show ?thesis unfolding Suc .
  qed
  have c5: "effect_tag (h' ! a) = Some DELETION" if a: "a \<in> set (dl0 @ ?dl1)" for a
  proof (cases "a \<in> set dl0")
    case True
    with D have "a \<in> set os" "effect_tag (h1 ! a) = Some DELETION" by auto
    with valid L have "a < length h1" "effect_tag (h1 ! a) = Some DELETION"
      by (auto simp: less_Suc_eq)
    with r2 show ?thesis by (auto dest: old_kept_deleted)
  next
    case False
    with a r5 show ?thesis by simp
  qed
  show ?thesis
    unfolding reconciled_def dl using c1 c2 c3 c4 c5 by simp
qed

lemma reconciled_old:
  assumes R: "reconciled wip els (Suc i) os' h1 (ds @ [a]) h' ds'"
    and i: "\<not> i < length els"
    and L: "length h1 = length h"
    and K: "old_kept [a] h h1"
    and D: "effect_tag (h1 ! a) = Some DELETION"
    and valid: "a < length h" "\<forall>x\<in>set os'. x < length h"
  shows "reconciled wip els i (a # os') h ds h' ds'"
proof -
  let ?dl1 = "deleted_olds h els (Suc i) os'"
  have dl: "deleted_olds h els i (a # os') = [a] @ ?dl1" using i by simp
  have kf: "ftype (h1 ! x) = ftype (h ! x)" if "x \<in> set os'" for x
    using K valid that by (simp add: old_kept_def)
  have cong: "deleted_olds h1 els (Suc i) os' = ?dl1"
    by (rule deleted_olds_cong) (use kf in auto)
  from R have r1: "length h' = length h1 + (length els - Suc i)"
    and r2: "old_kept ?dl1 h1 h'"
    and r3: "ds' = Some ((ds @ [a]) @ ?dl1)"
    and r5: "\<forall>x\<in>set ?dl1. effect_tag (h' ! x) = Some DELETION"
    unfolding reconciled_def cong by simp_all
  have c1: "length h' = length h + (length els - i)" using r1 L i by simp
  have c2: "old_kept ([a] @ ?dl1) h h'" by (rule old_kept_step[OF K r2]) auto
  have c3: "ds' = Some (ds @ [a] @ ?dl1)" using r3 by simp
  from D valid L r2 have "effect_tag (h' ! a) = Some DELETION"
    by (auto dest: old_kept_deleted)
  with r5 have c5: "\<forall>x\<in>set ([a] @ ?dl1). effect_tag (h' ! x) = Some DELETION" by simp
  show ?thesis
    unfolding reconciled_def dl using c1 c2 c3 c5 i by simp
qed

lemma chain_fields_kept:
  assumes "x < length h" and "i = 0 \<or> prev \<noteq> Some x"
  shows "ftype (link_fiber wip i prev new (h @ [nf]) ! x) = ftype (h ! x) \<and>
     sibling (link_fiber wip i prev new (h @ [nf]) ! x) = sibling (h ! x)"
    and "ftype (link_fiber wip i prev new (tag_deleted a (h @ [nf])) ! x) = ftype (h ! x) \<and>
     sibling (link_fiber wip i prev new (tag_deleted a (h @ [nf])) ! x) = sibling (h ! x)"
  using assms by (simp_all add: link_fiber_fields link_fiber_sibling tag_deleted_fields nth_append)

lemma old_chain_SomeE:
  assumes "old_chain h (Some a) os"
  obtains f t os' where "os = a # os'" "fiber_at h a = Some f" "ftype f = Some t"
    "old_chain h (sibling f) os'"
proof (cases os)
  case Nil
  with assms show ?thesis by simp
next
  case (Cons b bs)
  with assms have "\<exists>f t. a = b \<and> fiber_at h a = Some f \<and> ftype f = Some t \<and> old_chain h (sibling f) bs"
    by (auto split: option.splits)
  with Cons that show ?thesis by blast
qed

lemma reconcile_loop_pairs:
  assumes "old_chain (fibers s) old os" and "deletions s = Some ds" and "wip < length (fibers s)"
    and "0 < i \<and> i < length els \<longrightarrow> (\<exists>ps. prev = Some ps \<and> ps < length (fibers s) \<and> ps \<notin> set os)"
  shows "\<exists>s'. reconcile_loop wip els i old prev s = Some s' \<and>
              reconciled wip els i os (fibers s) ds (fibers s') (deletions s')"
  using assms
proof (induction "length els - i + length os" arbitrary: i old os prev s ds rule: less_induct)
  case less
  let ?h = "fibers s"
  let ?L = "length (fibers s)"
  note valid = old_chain_valid[OF less.prems(1)]
  show ?case
  proof (cases old)
    case None
    with less.prems(1) have os: "os = []" by (cases os) simp_all
    show ?thesis
    proof (cases "i < length els")
      case False
      with None have "reconcile_loop wip els i old prev s = Some s"
        by (subst reconcile_loop.simps) simp
      moreover have "reconciled wip els i os ?h ds ?h (deletions s)"
        using False os less.prems(2) by (simp add: reconciled_def old_kept_refl)
      ultimately show ?thesis by blast
    next
      case True
      define h1 where "h1 = link_fiber wip i prev (Some ?L) (?h @ [placement_fiber wip (els ! i)])"
      define s1 where "s1 = s\<lparr>fibers := h1\<rparr>"
      from less.prems(4) True have p: "0 < i \<longrightarrow> (\<exists>ps. prev = Some ps \<and> ps < ?L)" by auto
      have st: "reconcile_step wip els i None prev s = Some (None, Some ?L, s1)"
        unfolding s1_def h1_def by (rule step_new_eq[OF True less.prems(3) p])
      have lp: "reconcile_loop wip els i old prev s = reconcile_loop wip els (Suc i) None (Some ?L) s1"
        using True None st by (subst reconcile_loop.simps) simp
      have l1: "length h1 = Suc ?L" by (simp add: h1_def)
      have f1: "fibers s1 = h1" "deletions s1 = Some ds" by (simp_all add: s1_def less.prems(2))
      have "\<exists>s'. reconcile_loop wip els (Suc i) None (Some ?L) s1 = Some s' \<and>
              reconciled wip els (Suc i) [] (fibers s1) ds (fibers s') (deletions s')"
      proof (rule less.hyps)
        show "length els - Suc i + length ([]::fid list) < length els - i + length os"
          using True by simp
        show "old_chain (fibers s1) None []" by simp
        show "deletions s1 = Some ds" by (rule f1)
        show "wip < length (fibers s1)" using less.prems(3) f1 l1 by simp
        show "0 < Suc i \<and> Suc i < length els \<longrightarrow>
            (\<exists>ps. Some ?L = Some ps \<and> ps < length (fibers s1) \<and> ps \<notin> set [])"
          using f1 l1 by simp
      qed
      then obtain s' where s': "reconcile_loop wip els (Suc i) None (Some ?L) s1 = Some s'"
        and R: "reconciled wip els (Suc i) [] h1 (ds @ []) (fibers s') (deletions s')"
        unfolding f1 by auto
      have K: "old_kept [] ?h h1" unfolding h1_def by (intro old_kept_link old_kept_append)
      have N: "new_result wip ?h h1 None (els ! i) ?L"
        by (simp add: new_result_def h1_def link_fiber_fields placement_fiber_def)
      have "reconciled wip els i os ?h ds (fibers s') (deletions s')"
        by (rule reconciled_new[OF R True l1 K _ _ _ _ N]) (simp_all add: os)
      with lp s' show ?thesis by simp
    qed
  next
    case (Some a)
    with less.prems(1) obtain f t os' where os: "os = a # os'" and f: "fiber_at ?h a = Some f"
      and t: "ftype f = Some t" and c: "old_chain ?h (sibling f) os'"
      by (auto elim: old_chain_SomeE)
    from f have a: "a < ?L" "?h ! a = f" by (simp_all add: fiber_at_def split: if_splits)
    show ?thesis
    proof (cases "i < length els")
      case False
      define h1 where "h1 = (if i = 0 then link_fiber wip i prev None (tag_deleted a ?h)
                             else tag_deleted a ?h)"
      define s1 where "s1 = s\<lparr>fibers := h1, deletions := Some (ds @ [a])\<rparr>"
      have st: "reconcile_step wip els i (Some a) prev s = Some (sibling f, None, s1)"
        unfolding s1_def h1_def by (rule step_old_eq[OF False f less.prems(2,3)])
      have lp: "reconcile_loop wip els i old prev s = reconcile_loop wip els (Suc i) (sibling f) None s1"
        using Some st by (subst reconcile_loop.simps) simp
      have l1: "length h1 = ?L" by (simp add: h1_def)
      have f1: "fibers s1 = h1" "deletions s1 = Some (ds @ [a])" by (simp_all add: s1_def)
      have ch: "old_chain h1 (sibling f) os'"
      proof (rule old_chain_keep[OF c])
        show "?L \<le> length h1" using l1 by simp
        fix x assume "x \<in> set os'"
        show "ftype (h1 ! x) = ftype (?h ! x) \<and> sibling (h1 ! x) = sibling (?h ! x)"
          by (simp add: h1_def link_fiber_fields link_fiber_sibling tag_deleted_fields)
      qed
      have "\<exists>s'. reconcile_loop wip els (Suc i) (sibling f) None s1 = Some s' \<and>
              reconciled wip els (Suc i) os' (fibers s1) (ds @ [a]) (fibers s') (deletions s')"
      proof (rule less.hyps)
        show "length els - Suc i + length os' < length els - i + length os"
          using False os by simp
        show "old_chain (fibers s1) (sibling f) os'" using ch f1 by simp
        show "deletions s1 = Some (ds @ [a])" by (rule f1)
        show "wip < length (fibers s1)" using less.prems(3) f1 l1 by simp
        show "0 < Suc i \<and> Suc i < length els \<longrightarrow>
            (\<exists>ps. None = Some ps \<and> ps < length (fibers s1) \<and> ps \<notin> set os')"
          using False by simp
      qed
      then obtain s' where s': "reconcile_loop wip els (Suc i) (sibling f) None s1 = Some s'"
        and R: "reconciled wip els (Suc i) os' h1 (ds @ [a]) (fibers s') (deletions s')"
        unfolding f1 by auto
      have K: "old_kept [a] ?h h1" unfolding h1_def using a
        by (auto intro!: old_kept_link old_kept_tag old_kept_refl)
      have D: "effect_tag (h1 ! a) = Some DELETION"
        using a by (simp add: h1_def link_fiber_fields tag_deleted_tag)
      have "reconciled wip els i (a # os') ?h ds (fibers s') (deletions s')"
        by (rule reconciled_old[OF R False l1 K D a(1)]) (use valid os in auto)
      with lp s' os show ?thesis by simp
    next
      case True
      let ?e = "els ! i"
      define dl0 where "dl0 = (if vtype ?e = t then [] else [a])"
      define h1 where "h1 = link_fiber wip i prev (Some ?L)
                 (if vtype ?e = t
                  then ?h @ [update_fiber wip a f ?e]
                  else tag_deleted a (?h @ [placement_fiber wip ?e]))"
      define s1 where "s1 = s\<lparr>fibers := h1, deletions := Some (if vtype ?e = t then ds else ds @ [a])\<rparr>"
      from less.prems(4) True have p: "0 < i \<longrightarrow> (\<exists>ps. prev = Some ps \<and> ps < ?L)" by auto
      have st: "reconcile_step wip els i (Some a) prev s = Some (sibling f, Some ?L, s1)"
        unfolding s1_def h1_def by (rule step_pair_eq[OF True f t less.prems(2,3) p])
      have lp: "reconcile_loop wip els i old prev s =
          reconcile_loop wip els (Suc i) (sibling f) (Some ?L) s1"
        using Some st by (subst reconcile_loop.simps) simp
      have l1: "length h1 = Suc ?L" by (simp add: h1_def)
      have f1: "fibers s1 = h1" "deletions s1 = Some (ds @ dl0)" by (simp_all add: s1_def dl0_def)
      have ch: "old_chain h1 (sibling f) os'"
      proof (rule old_chain_keep[OF c])
        show "?L \<le> length h1" using l1 by simp
        fix x assume x: "x \<in> set os'"
        with valid os have xl: "x < ?L" by simp
        from less.prems(4) True x os have pr: "i = 0 \<or> prev \<noteq> Some x" by auto
        show "ftype (h1 ! x) = ftype (?h ! x) \<and> sibling (h1 ! x) = sibling (?h ! x)"
          unfolding h1_def using chain_fields_kept[OF xl pr] by (cases "vtype ?e = t") simp_all
      qed
      have "\<exists>s'. reconcile_loop wip els (Suc i) (sibling f) (Some ?L) s1 = Some s' \<and>
              reconciled wip els (Suc i) os' (fibers s1) (ds @ dl0) (fibers s') (deletions s')"
      proof (rule less.hyps)
        show "length els - Suc i + length os' < length els - i + length os"
          using True os by simp
        show "old_chain (fibers s1) (sibling f) os'" using ch f1 by simp
        show "deletions s1 = Some (ds @ dl0)" by (rule f1)
        show "wip < length (fibers s1)" using less.prems(3) f1 l1 by simp
        show "0 < Suc i \<and> Suc i < length els \<longrightarrow>
            (\<exists>ps. Some ?L = Some ps \<and> ps < length (fibers s1) \<and> ps \<notin> set os')"
          using f1 l1 valid os by auto
      qed
      then obtain s' where s': "reconcile_loop wip els (Suc i) (sibling f) (Some ?L) s1 = Some s'"
        and R: "reconciled wip els (Suc i) os' h1 (ds @ dl0) (fibers s') (deletions s')"
        unfolding f1 by auto
      have K: "old_kept dl0 ?h h1" unfolding h1_def dl0_def using a
        by (auto intro!: old_kept_link old_kept_tag old_kept_append)
      have N: "new_result wip ?h h1 (Some a) ?e ?L"
        using a t
        by (simp add: new_result_def h1_def link_fiber_fields tag_deleted_fields tag_deleted_tag
            update_fiber_def placement_fiber_def nth_append)
      have D: "\<forall>x\<in>set dl0. effect_tag (h1 ! x) = Some DELETION"
        using a by (simp add: dl0_def h1_def link_fiber_fields tag_deleted_tag)
      have dl: "deleted_olds ?h els i os = dl0 @ deleted_olds ?h els (Suc i) os'"
        using True a t by (auto simp: os dl0_def)
      have "reconciled wip els i os ?h ds (fibers s') (deletions s')"
        by (rule reconciled_new[OF R True l1 K _ _ dl _ N D])
          (use valid os in \<open>auto simp: dl0_def\<close>)
      with lp s' show ?thesis by simp
    qed
  qed
qed

text \<open>
  C4.  \<open>reconcile_children\<close> is called for a fiber \<open>wip\<close> whose alternate has the children
  \<open>olds\<close> (the chain of siblings from its \<open>child\<close>, each with a \<open>type\<close>), with the
  elements \<open>els\<close>, while there is a deletion list.  The call returns, and for every index
  \<open>k\<close> that has an old fiber and an element the loop has left this behind: the new fiber
  of the element (the \<open>k\<close>-th fiber the call puts into the store) has the type, the props
  and the children of the element, \<open>wip\<close> as parent and no hooks.  If the old fiber has
  the type of the element, the new fiber is tagged \<open>UPDATE\<close> and has the host object of
  the old fiber and the old fiber as alternate; the old fiber has the tag it had and is
  not among the fibers appended to the deletions.  If it has another type, the new fiber
  is tagged \<open>PLACEMENT\<close> and has no host object and no alternate; the old fiber is tagged
  \<open>DELETION\<close> and is among the fibers appended to the deletions, where no fiber is
  appended twice.  The key of the element is not read.
\<close>

theorem reconcile_children_pairs:
  assumes "fiber_at (fibers s) wip = Some wipf" and "alternate wipf = Some b"
    and "fiber_at (fibers s) b = Some bf" and "old_chain (fibers s) (child bf) olds"
    and "deletions s = Some ds" and "k < length olds" and "k < length els"
  shows "\<exists>s'. reconcile_children wip els s = Some s' \<and>
      deletions s' = Some (ds @ deleted_olds (fibers s) els 0 olds) \<and>
      ftype (fibers s' ! (length (fibers s) + k)) = Some (vtype (els ! k)) \<and>
      props (fibers s' ! (length (fibers s) + k)) = vprops (els ! k) \<and>
      children (fibers s' ! (length (fibers s) + k)) = vchildren (els ! k) \<and>
      parent (fibers s' ! (length (fibers s) + k)) = Some wip \<and>
      hooks (fibers s' ! (length (fibers s) + k)) = None \<and>
      (if ftype (fibers s ! (olds ! k)) = Some (vtype (els ! k))
       then effect_tag (fibers s' ! (length (fibers s) + k)) = Some UPDATE \<and>
            fdom (fibers s' ! (length (fibers s) + k)) = fdom (fibers s ! (olds ! k)) \<and>
            alternate (fibers s' ! (length (fibers s) + k)) = Some (olds ! k) \<and>
            effect_tag (fibers s' ! (olds ! k)) = effect_tag (fibers s ! (olds ! k)) \<and>
            olds ! k \<notin> set (deleted_olds (fibers s) els 0 olds)
       else effect_tag (fibers s' ! (length (fibers s) + k)) = Some PLACEMENT \<and>
            fdom (fibers s' ! (length (fibers s) + k)) = None \<and>
            alternate (fibers s' ! (length (fibers s) + k)) = None \<and>
            effect_tag (fibers s' ! (olds ! k)) = Some DELETION \<and>
            olds ! k \<in> set (deleted_olds (fibers s) els 0 olds) \<and>
            distinct (deleted_olds (fibers s) els 0 olds))"
proof -
  let ?h = "fibers s"
  let ?dl = "deleted_olds ?h els 0 olds"
  from assms(1) have w: "wip < length ?h" by (simp add: fiber_at_def split: if_splits)
  have "\<exists>s'. reconcile_loop wip els 0 (child bf) None s = Some s' \<and>
          reconciled wip els 0 olds ?h ds (fibers s') (deletions s')"
    by (rule reconcile_loop_pairs[OF assms(4) assms(5) w]) simp
  then obtain s' where l: "reconcile_loop wip els 0 (child bf) None s = Some s'"
    and R: "reconciled wip els 0 olds ?h ds (fibers s') (deletions s')"
    by blast
  from l assms(1-3) have rc: "reconcile_children wip els s = Some s'"
    by (simp add: reconcile_children_def)
  from R have r2: "old_kept ?dl ?h (fibers s')"
    and r3: "deletions s' = Some (ds @ ?dl)"
    and r4: "\<And>j. j < length els \<Longrightarrow>
         new_result wip ?h (fibers s') (if j < length olds then Some (olds ! j) else None)
           (els ! j) (length ?h + j)"
    and r5: "\<forall>a\<in>set ?dl. effect_tag (fibers s' ! a) = Some DELETION"
    unfolding reconciled_def by simp_all
  from r4[OF assms(7)] assms(6)
  have n: "new_result wip ?h (fibers s') (Some (olds ! k)) (els ! k) (length ?h + k)" by simp
  have v: "olds ! k < length ?h" using old_chain_valid[OF assms(4)] assms(6) by simp
  have d: "distinct olds" by (rule old_chain_distinct[OF assms(4)])
  show ?thesis
  proof (cases "ftype (?h ! (olds ! k)) = Some (vtype (els ! k))")
    case True
    from deleted_olds_not_mem[OF d assms(6), of 0 els ?h] assms(7) True
    have nm: "olds ! k \<notin> set ?dl" by simp
    with r2 v have "effect_tag (fibers s' ! (olds ! k)) = effect_tag (?h ! (olds ! k))"
      by (auto simp: old_kept_def)
    with rc r3 n nm True show ?thesis by (simp add: new_result_def)
  next
    case False
    from deleted_olds_mem[OF assms(6), of 0 els ?h] False
    have m: "olds ! k \<in> set ?dl" by simp
    with r5 have "effect_tag (fibers s' ! (olds ! k)) = Some DELETION" by blast
    moreover have "distinct ?dl" by (rule deleted_olds_distinct[OF d])
    ultimately show ?thesis using rc r3 n m False by (simp add: new_result_def)
  qed
qed

theorem reconcile_children_pairs_witness:
  "map_option
     (\<lambda>s'. (deletions s',
        effect_tag (fibers s' ! 6), fdom (fibers s' ! 6), alternate (fibers s' ! 6),
        effect_tag (fibers s' ! 2),
        effect_tag (fibers s' ! 7), fdom (fibers s' ! 7), alternate (fibers s' ! 7),
        effect_tag (fibers s' ! 3)))
     (Option.bind second_render_div (reconcile_children 5 (vchildren div_two_spans))) =
   Some (Some [3],
         Some UPDATE, Some (Created 1), Some 2,
         Some PLACEMENT,
         Some PLACEMENT, None, None,
         Some DELETION)"
proof -
  let ?els = "vchildren div_two_spans"
  have "second_render_div \<noteq> None" by code_simp
  then obtain s where st: "second_render_div = Some s" by auto
  have "map_option
      (\<lambda>s. (length (fibers s), alternate (fibers s ! 5), child (fibers s ! 1),
            old_chain (fibers s) (Some 2) [2, 3], deletions s,
            ftype (fibers s ! 2), ftype (fibers s ! 3), fdom (fibers s ! 2),
            effect_tag (fibers s ! 2)))
      second_render_div =
    Some (6, Some 1, Some 2, True, Some [],
          Some (Host ''span''), Some (Host ''p''), Some (Created 1), Some PLACEMENT)"
    by code_simp
  then have f: "length (fibers s) = 6" "alternate (fibers s ! 5) = Some 1"
    "child (fibers s ! 1) = Some 2" "old_chain (fibers s) (Some 2) [2, 3]"
    "deletions s = Some []" "ftype (fibers s ! 2) = Some (Host ''span'')"
    "ftype (fibers s ! 3) = Some (Host ''p'')" "fdom (fibers s ! 2) = Some (Created 1)"
    "effect_tag (fibers s ! 2) = Some PLACEMENT"
    unfolding st by simp_all
  have a: "fiber_at (fibers s) 5 = Some (fibers s ! 5)" "fiber_at (fibers s) 1 = Some (fibers s ! 1)"
    by (simp_all add: fiber_at_def f)
  have c: "old_chain (fibers s) (child (fibers s ! 1)) [2, 3]" unfolding f(3) by (rule f(4))
  have e: "?els = [VNode (Host ''span'') [] [] PNone, VNode (Host ''span'') [] [] PNone]"
    by (simp add: div_two_spans_def)
  have dl: "deleted_olds (fibers s) ?els 0 [2, 3] = [3]"
    by (simp add: e f)
  from reconcile_children_pairs[OF a(1) f(2) a(2) c f(5), of 0 ?els]
  obtain s' where r: "reconcile_children 5 ?els s = Some s'"
    and 0: "deletions s' = Some [3]" "effect_tag (fibers s' ! 6) = Some UPDATE"
      "fdom (fibers s' ! 6) = Some (Created 1)" "alternate (fibers s' ! 6) = Some 2"
      "effect_tag (fibers s' ! 2) = Some PLACEMENT"
    by (auto simp: e f dl)
  from reconcile_children_pairs[OF a(1) f(2) a(2) c f(5), of 1 ?els] r
  have 1: "effect_tag (fibers s' ! 7) = Some PLACEMENT" "fdom (fibers s' ! 7) = None"
      "alternate (fibers s' ! 7) = None" "effect_tag (fibers s' ! 3) = Some DELETION"
    by (auto simp: e f dl)
  from r 0 1 show ?thesis unfolding st by simp
qed

end
